theory Spec2Isabelle
  imports Main "HOL-Library.Word" "HOL-Library.Monad_Syntax"
    "HOL-Library.List_Lexorder" "HOL-Library.Char_ord"
begin

unbundle bit_operations_syntax

section \<open>Data model\<close>

subsection \<open>Machine types and time\<close>

type_synonym byte = "8 word"
type_synonym uint16 = "16 word"
type_synonym uint32 = "32 word"
type_synonym uint64 = "64 word"

text \<open>
  A Go \<open>time.Time\<close> is modelled as the number of nanoseconds since the zero time
  (January 1, year 1, 00:00:00 UTC), so \<open>IsZero\<close> is equality with 0 and \<open>Truncate\<close>
  rounds down to a multiple counted from 0, as the standard library documents. A
  \<open>time.Duration\<close> is a signed 64-bit count of nanoseconds; \<open>Time.Sub\<close> saturates at
  the smallest and largest duration.
\<close>

type_synonym time = int
type_synonym duration = int

definition minDuration :: duration where
  "minDuration = - (2 ^ 63)"

definition maxDuration :: duration where
  "maxDuration = 2 ^ 63 - 1"

definition time_Sub :: "time \<Rightarrow> time \<Rightarrow> duration" where
  "time_Sub t u =
     (if t - u > maxDuration then maxDuration
      else if t - u < minDuration then minDuration
      else t - u)"

definition time_Add :: "time \<Rightarrow> duration \<Rightarrow> time" where
  "time_Add t d = t + d"

definition time_Before :: "time \<Rightarrow> time \<Rightarrow> bool" where
  "time_Before t u = (t < u)"

definition time_IsZero :: "time \<Rightarrow> bool" where
  "time_IsZero t = (t = 0)"

definition time_Truncate :: "time \<Rightarrow> duration \<Rightarrow> time" where
  "time_Truncate t d = (if d \<le> 0 then t else t - t mod d)"

subsection \<open>Headers\<close>

record HRDLHeader =
  Size :: uint32
  Error :: uint16
  Channel :: byte
  Payload :: byte
  PacketCoarse :: uint32
  PacketFine :: byte
  HRDPCoarse :: uint32
  HRDPFine :: byte

record VMUHeader =
  Size :: uint32
  Channel :: byte
  Origin :: byte
  Sequence :: uint32
  Coarse :: uint32
  Fine :: uint16

record VMUCommonHeader =
  Property :: byte
  Origin :: byte
  AcqTime :: uint64
  AuxTime :: uint64
  Stream :: uint16
  Counter :: uint32
  UPI :: "byte list"

text \<open>
  \<open>timutil.Join6\<close> and the epoch \<open>timutil.GPS\<close> belong to an external library; they
  are parameters of the model. \<open>AcqTime\<close> holds the 64 bits read from the wire, which
  \<open>time.Duration(...)\<close> reinterprets as a signed count of nanoseconds.
\<close>

definition Timestamp :: "(uint32 \<Rightarrow> uint16 \<Rightarrow> time) \<Rightarrow> VMUHeader \<Rightarrow> time" where
  "Timestamp join6 v = join6 (Coarse v) (Fine v)"

definition Acquisition :: "time \<Rightarrow> VMUCommonHeader \<Rightarrow> time" where
  "Acquisition gps v = time_Add gps (sint (AcqTime v))"

text \<open>The part of \<open>vmu.Packet\<close> that the commands read.\<close>

record Packet =
  VMUHeader :: VMUHeader
  DataHeader :: VMUCommonHeader

subsection \<open>Gap\<close>

text \<open>
  The type \<open>meex.Gap\<close> is declared outside the available sources; its fields are
  taken from their uses in the commands and in the CSV export.
\<close>

record Gap =
  Id :: int
  Starts :: time
  Ends :: time
  Last :: int
  First :: int

definition zeroGap :: Gap where
  "zeroGap = \<lparr>Id = 0, Starts = 0, Ends = 0, Last = 0, First = 0\<rparr>"

text \<open>
  Modelled from the spec: the method \<open>Gap.Missing\<close> is not part of the available
  sources. The spec gives the derived missing count as |after - before| - 1 of the two
  bracketing sequence values.
\<close>

definition Gap_Missing :: "Gap \<Rightarrow> int" where
  "Gap_Missing g = \<bar>First g - Last g\<bar> - 1"

section \<open>Gap detection (diff command)\<close>

text \<open>
  Go's \<open>int\<close> is taken as 64 bits wide: the difference of two values converted from
  \<open>uint32\<close> then never overflows, and is the difference of integers.
\<close>

definition gapByChannel ::
  "(uint32 \<Rightarrow> uint16 \<Rightarrow> time) \<Rightarrow> Packet \<Rightarrow> Packet \<Rightarrow> duration \<Rightarrow> bool \<times> Gap" where
  "gapByChannel join6 p prev dur =
     (let last = uint (Sequence (VMUHeader p));
          first = uint (Sequence (VMUHeader prev));
          delta = time_Sub (Timestamp join6 (VMUHeader p)) (Timestamp join6 (VMUHeader prev));
          diff = last - first
      in if diff \<noteq> 1 \<and> (dur = 0 \<or> delta \<le> dur)
         then (True, zeroGap\<lparr>Last := first, First := last,
                 Starts := Timestamp join6 (VMUHeader prev),
                 Ends := Timestamp join6 (VMUHeader p)\<rparr>)
         else (False, zeroGap))"

definition gapByOrigin ::
  "time \<Rightarrow> Packet \<Rightarrow> Packet \<Rightarrow> duration \<Rightarrow> bool \<times> Gap" where
  "gapByOrigin gps p prev dur =
     (let last = uint (Counter (DataHeader p));
          first = uint (Counter (DataHeader prev));
          delta = time_Sub (Acquisition gps (DataHeader p)) (Acquisition gps (DataHeader prev));
          diff = last - first
      in if diff \<noteq> 1 \<and> (dur = 0 \<or> delta \<le> dur)
         then (True, zeroGap\<lparr>Last := first, First := last,
                 Starts := Acquisition gps (DataHeader prev),
                 Ends := Acquisition gps (DataHeader p)\<rparr>)
         else (False, zeroGap))"

section \<open>Counting (count command)\<close>

text \<open>
  The aggregate \<open>meex.Coze\<close> is declared outside the available sources; its fields
  are taken from their uses (\<open>Id\<close> an \<open>int\<close>, the four counters \<open>uint64\<close>).
\<close>

record Coze =
  Id :: int
  Count :: uint64
  Size :: uint64
  Missing :: uint64
  Error :: uint64

definition zeroCoze :: Coze where
  "zeroCoze = \<lparr>Id = 0, Count = 0, Size = 0, Missing = 0, Error = 0\<rparr>"

datatype grouping = ByChannel | ByOrigin

definition byChannel :: "Packet \<Rightarrow> byte" where
  "byChannel p = VMUHeader.Channel (VMUHeader p)"

definition byOrigin :: "Packet \<Rightarrow> byte" where
  "byOrigin p = VMUCommonHeader.Origin (DataHeader p)"

text \<open>The two closures \<open>missBy\<close> of \<open>runCount\<close>: the subtraction is on \<open>uint32\<close>,
  the conversion widens it, and the final \<open>- 1\<close> is on \<open>uint64\<close>.\<close>

definition missByChannel :: "Packet \<Rightarrow> Packet \<Rightarrow> uint64" where
  "missByChannel p prev =
     (if Sequence (VMUHeader p) < Sequence (VMUHeader prev) then 0
      else ucast (Sequence (VMUHeader p) - Sequence (VMUHeader prev)) - 1)"

definition missByOrigin :: "Packet \<Rightarrow> Packet \<Rightarrow> uint64" where
  "missByOrigin p prev =
     (if Counter (DataHeader p) < Counter (DataHeader prev) then 0
      else ucast (Counter (DataHeader p) - Counter (DataHeader prev)) - 1)"

definition getBy :: "grouping \<Rightarrow> Packet \<Rightarrow> byte" where
  "getBy b = (case b of ByChannel \<Rightarrow> byChannel | ByOrigin \<Rightarrow> byOrigin)"

definition missBy :: "grouping \<Rightarrow> Packet \<Rightarrow> Packet \<Rightarrow> uint64" where
  "missBy b = (case b of ByChannel \<Rightarrow> missByChannel | ByOrigin \<Rightarrow> missByOrigin)"

record count_state =
  stats :: "byte \<rightharpoonup> Coze"
  seen :: "byte \<rightharpoonup> Packet"

text \<open>
  One turn of the loop of \<open>runCount\<close> for a decoded packet; \<open>bad\<close> says that the
  decoder returned \<open>vmu.ErrInvalid\<close> with it. Reading a key that a Go map does not
  hold gives the zero value. On \<open>continue\<close> the updated copy \<open>cz\<close> is dropped.
\<close>

definition countStep :: "grouping \<Rightarrow> bool \<Rightarrow> count_state \<Rightarrow> Packet \<Rightarrow> bool \<Rightarrow> count_state" where
  "countStep b keepInvalid st p bad =
     (let k = getBy b p;
          cz0 = (case stats st k of None \<Rightarrow> zeroCoze | Some c \<Rightarrow> c);
          cz1 = cz0\<lparr>Count := Count cz0 + 1,
                    Size := Coze.Size cz0 + ucast (VMUHeader.Size (VMUHeader p))\<rparr>;
          cz2 = (if bad then cz1\<lparr>Error := Coze.Error cz1 + 1\<rparr> else cz1)
      in if bad \<and> \<not> keepInvalid then st
         else
           let cz3 = (case seen st k of
                        Some prev \<Rightarrow> cz2\<lparr>Missing := Missing cz2 + missBy b p prev\<rparr>
                      | None \<Rightarrow> cz2)
           in st\<lparr>seen := (seen st)(k \<mapsto> p), stats := (stats st)(k \<mapsto> cz3)\<rparr>)"

text \<open>
  What \<open>d.Decode\<close> returns, turn after turn, before \<open>io.EOF\<close> ends the loop: a packet
  with a nil error or with \<open>vmu.ErrInvalid\<close> (the flag), or \<open>vmu.ErrSkip\<close>, on which
  the loop does nothing.
\<close>

datatype decoded = Decoded Packet bool | ErrSkip

fun runCount_loop :: "grouping \<Rightarrow> bool \<Rightarrow> count_state \<Rightarrow> decoded list \<Rightarrow> count_state" where
  "runCount_loop b keepInvalid st [] = st"
| "runCount_loop b keepInvalid st (Decoded p bad # ds) =
     runCount_loop b keepInvalid (countStep b keepInvalid st p bad) ds"
| "runCount_loop b keepInvalid st (ErrSkip # ds) = runCount_loop b keepInvalid st ds"

text \<open>The statistics that \<open>runCount\<close> prints at \<open>io.EOF\<close>, starting from empty maps.\<close>

definition runCount :: "grouping \<Rightarrow> bool \<Rightarrow> decoded list \<Rightarrow> (byte \<rightharpoonup> Coze)" where
  "runCount b keepInvalid ds =
     stats (runCount_loop b keepInvalid \<lparr>stats = Map.empty, seen = Map.empty\<rparr> ds)"

section \<open>Header decoding and checksum\<close>

text \<open>
  A Go function that indexes or slices out of range panics. The decoders are modelled
  with results in \<open>option\<close>: \<open>None\<close> is the run-time panic, \<open>Some\<close> the values the
  function returns. Slices are modelled by their contents, with capacity equal to
  length.
\<close>

datatype error = shortError (Want: int) (Got: int) | ErrInvalid

definition NotEnoughByte :: "int \<Rightarrow> int \<Rightarrow> error" where
  "NotEnoughByte want got = shortError want got"

definition isShortError :: "error \<Rightarrow> bool" where
  "isShortError e = (case e of shortError _ _ \<Rightarrow> True | ErrInvalid \<Rightarrow> False)"

definition UPILen :: nat where "UPILen = 32"
definition HRDLHeaderLen :: nat where "HRDLHeaderLen = 18"
definition VMUHeaderLen :: nat where "VMUHeaderLen = 24"

definition invalid :: string where "invalid = ''invalid''"
definition unknown :: string where "unknown = ''***''"

definition index :: "byte list \<Rightarrow> int \<Rightarrow> byte option" where
  "index b i = (if 0 \<le> i \<and> i < int (length b) then Some (b ! nat i) else None)"

definition slice_from :: "byte list \<Rightarrow> int \<Rightarrow> byte list option" where
  "slice_from b lo = (if 0 \<le> lo \<and> lo \<le> int (length b) then Some (drop (nat lo) b) else None)"

definition slice :: "byte list \<Rightarrow> int \<Rightarrow> int \<Rightarrow> byte list option" where
  "slice b lo hi =
     (if 0 \<le> lo \<and> lo \<le> hi \<and> hi \<le> int (length b)
      then Some (take (nat hi - nat lo) (drop (nat lo) b)) else None)"

text \<open>\<open>encoding/binary\<close>: each reader first touches the last byte it needs.\<close>

definition LittleEndian_Uint16 :: "byte list \<Rightarrow> uint16 option" where
  "LittleEndian_Uint16 b =
     (if length b < 2 then None
      else Some (ucast (b ! 0) OR push_bit 8 (ucast (b ! 1))))"

definition BigEndian_Uint16 :: "byte list \<Rightarrow> uint16 option" where
  "BigEndian_Uint16 b =
     (if length b < 2 then None
      else Some (ucast (b ! 1) OR push_bit 8 (ucast (b ! 0))))"

definition LittleEndian_Uint32 :: "byte list \<Rightarrow> uint32 option" where
  "LittleEndian_Uint32 b =
     (if length b < 4 then None
      else Some (ucast (b ! 0) OR push_bit 8 (ucast (b ! 1))
                 OR push_bit 16 (ucast (b ! 2)) OR push_bit 24 (ucast (b ! 3))))"

definition BigEndian_Uint32 :: "byte list \<Rightarrow> uint32 option" where
  "BigEndian_Uint32 b =
     (if length b < 4 then None
      else Some (ucast (b ! 3) OR push_bit 8 (ucast (b ! 2))
                 OR push_bit 16 (ucast (b ! 1)) OR push_bit 24 (ucast (b ! 0))))"

definition LittleEndian_Uint64 :: "byte list \<Rightarrow> uint64 option" where
  "LittleEndian_Uint64 b =
     (if length b < 8 then None
      else Some (ucast (b ! 0) OR push_bit 8 (ucast (b ! 1))
                 OR push_bit 16 (ucast (b ! 2)) OR push_bit 24 (ucast (b ! 3))
                 OR push_bit 32 (ucast (b ! 4)) OR push_bit 40 (ucast (b ! 5))
                 OR push_bit 48 (ucast (b ! 6)) OR push_bit 56 (ucast (b ! 7))))"

definition decodeHRDL :: "byte list \<Rightarrow> (HRDLHeader \<times> error option) option" where
  "decodeHRDL body = do {
     size \<leftarrow> LittleEndian_Uint32 body;
     b4 \<leftarrow> slice_from body 4;
     err \<leftarrow> BigEndian_Uint16 b4;
     payload \<leftarrow> index body 6;
     channel \<leftarrow> index body 7;
     b8 \<leftarrow> slice_from body 8;
     pcoarse \<leftarrow> BigEndian_Uint32 b8;
     pfine \<leftarrow> index body 12;
     b13 \<leftarrow> slice_from body 13;
     hcoarse \<leftarrow> BigEndian_Uint32 b13;
     hfine \<leftarrow> index body 17;
     Some (\<lparr>HRDLHeader.Size = size, HRDLHeader.Error = err, HRDLHeader.Channel = channel,
            Payload = payload, PacketCoarse = pcoarse, PacketFine = pfine,
            HRDPCoarse = hcoarse, HRDPFine = hfine\<rparr>, None)
   }"

definition decodeVMU :: "byte list \<Rightarrow> (VMUHeader \<times> error option) option" where
  "decodeVMU body = do {
     b4 \<leftarrow> slice_from body 4;
     size \<leftarrow> LittleEndian_Uint32 b4;
     channel \<leftarrow> index body 8;
     origin \<leftarrow> index body 9;
     b12 \<leftarrow> slice_from body 12;
     sequence \<leftarrow> LittleEndian_Uint32 b12;
     b16 \<leftarrow> slice_from body 16;
     coarse \<leftarrow> LittleEndian_Uint32 b16;
     b20 \<leftarrow> slice_from body 20;
     fine \<leftarrow> LittleEndian_Uint16 b20;
     Some (\<lparr>VMUHeader.Size = size, VMUHeader.Channel = channel, VMUHeader.Origin = origin,
            Sequence = sequence, Coarse = coarse, Fine = fine\<rparr>, None)
   }"

text \<open>\<open>copy(v.UPI[:], src)\<close> into the zeroed 32-byte array: as many bytes as \<open>src\<close>
  has, at most 32, the rest stays zero.\<close>

definition copyUPI :: "byte list \<Rightarrow> byte list" where
  "copyUPI src = take UPILen src @ replicate (UPILen - length src) 0"

definition decodeCommon :: "byte list \<Rightarrow> (VMUCommonHeader \<times> error option) option" where
  "decodeCommon body = do {
     property \<leftarrow> index body 0;
     b1 \<leftarrow> slice_from body 1;
     stream \<leftarrow> LittleEndian_Uint16 b1;
     b3 \<leftarrow> slice_from body 3;
     counter \<leftarrow> LittleEndian_Uint32 b3;
     b7 \<leftarrow> slice_from body 7;
     acq \<leftarrow> LittleEndian_Uint64 b7;
     b15 \<leftarrow> slice_from body 15;
     aux \<leftarrow> LittleEndian_Uint64 b15;
     origin \<leftarrow> index body 23;
     upi \<leftarrow> (if drop_bit 4 property = 1 then map_option copyUPI (slice_from body 24)
            else if drop_bit 4 property = 2 then map_option copyUPI (slice_from body 44)
            else Some (replicate UPILen 0));
     Some (\<lparr>Property = property, VMUCommonHeader.Origin = origin, AcqTime = acq,
            AuxTime = aux, Stream = stream, Counter = counter, UPI = upi\<rparr>, None)
   }"

subsection \<open>Checksum\<close>

definition blockSize :: int where "blockSize = 16"

text \<open>One of the four statements of the block loop: four reads, added as \<open>uint32\<close>.\<close>

definition quad :: "byte list \<Rightarrow> int \<Rightarrow> uint32 option" where
  "quad body i = do {
     a \<leftarrow> index body i;
     b \<leftarrow> index body (i + 1);
     c \<leftarrow> index body (i + 2);
     d \<leftarrow> index body (i + 3);
     Some (ucast a + ucast b + ucast c + ucast d)
   }"

definition block :: "byte list \<Rightarrow> int \<Rightarrow> uint32 \<Rightarrow> uint32 option" where
  "block body i sm = do {
     q0 \<leftarrow> quad body i;
     q1 \<leftarrow> quad body (i + 4);
     q2 \<leftarrow> quad body (i + 8);
     q3 \<leftarrow> quad body (i + 12);
     Some (sm + q0 + q1 + q2 + q3)
   }"

function blockLoop :: "byte list \<Rightarrow> int \<Rightarrow> int \<Rightarrow> uint32 \<Rightarrow> (uint32 \<times> int) option" where
  "blockLoop body limit i sm =
     (if i < (limit - blockSize) + 1
      then (case block body i sm of
              None \<Rightarrow> None
            | Some sm' \<Rightarrow> blockLoop body limit (i + blockSize) sm')
      else Some (sm, i))"
  by pat_completeness auto
termination
  by (relation "measure (\<lambda>(body, limit, i, sm). nat (limit - i))")
     (auto simp: blockSize_def)

declare blockLoop.simps [simp del]

function scalarLoop :: "byte list \<Rightarrow> int \<Rightarrow> int \<Rightarrow> uint32 \<Rightarrow> (uint32 \<times> int) option" where
  "scalarLoop body limit i sm =
     (if i < limit
      then (case index body i of
              None \<Rightarrow> None
            | Some b \<Rightarrow> scalarLoop body limit (i + 1) (sm + ucast b))
      else Some (sm, i))"
  by pat_completeness auto
termination
  by (relation "measure (\<lambda>(body, limit, i, sm). nat (limit - i))") auto

declare scalarLoop.simps [simp del]

definition calculateSum :: "byte list \<Rightarrow> (uint32 \<times> string) option" where
  "calculateSum body = do {
     let limit = int (length body) - 4;
     (sum1, i1) \<leftarrow> blockLoop body limit 0 0;
     (sum2, i2) \<leftarrow> scalarLoop body limit i1 sum1;
     tail \<leftarrow> slice_from body limit;
     expected \<leftarrow> LittleEndian_Uint32 tail;
     Some (sum2, if expected \<noteq> sum2 then invalid else unknown)
   }"

subsection \<open>One packet of the listing\<close>

text \<open>
  \<open>dumpPacket\<close> by its return values \<open>(int, error)\<close>; the row it prints between
  the checksum and the return is not part of the model. \<open>int(v.Size)\<close> is the
  unsigned value of the field.
\<close>

definition dumpPacket :: "byte list \<Rightarrow> uint64 \<Rightarrow> bool \<Rightarrow> (int \<times> error option) option" where
  "dumpPacket body digest withErr =
     (if length body < HRDLHeaderLen + VMUHeaderLen
      then Some (0, Some (NotEnoughByte 0 (int (length body))))
      else do {
        hb \<leftarrow> slice body 0 (int HRDLHeaderLen);
        (h, herr) \<leftarrow> decodeHRDL hb;
        if herr \<noteq> None then Some (0, herr)
        else do {
          vb \<leftarrow> slice body (int HRDLHeaderLen) (int (HRDLHeaderLen + VMUHeaderLen));
          (v, verr) \<leftarrow> decodeVMU vb;
          if verr \<noteq> None then Some (0, verr)
          else
            let size = int (length body) - int HRDLHeaderLen - 12 in
            if uint (VMUHeader.Size v) > size
            then Some (0, Some (NotEnoughByte (uint (VMUHeader.Size v) + 12) (size + 12)))
            else do {
              cb \<leftarrow> slice_from body (int (HRDLHeaderLen + VMUHeaderLen));
              (c, cerr) \<leftarrow> decodeCommon cb;
              if cerr \<noteq> None then Some (0, cerr)
              else do {
                sb \<leftarrow> slice body (int HRDLHeaderLen + 8)
                       (int HRDLHeaderLen + 8 + uint (VMUHeader.Size v) + 4);
                (sm, bad) \<leftarrow> calculateSum sb;
                if bad = invalid \<and> \<not> withErr then Some (0, Some ErrInvalid)
                else Some (uint (VMUHeader.Size v),
                           if bad = invalid then Some ErrInvalid else None)
              }
            }
        }
      })"

subsection \<open>User information\<close>

text \<open>
  \<open>unicode.IsLetter\<close> and \<open>unicode.IsDigit\<close> on the Latin-1 range, from the
  Unicode tables; the model is only used at \<open>rune(b)\<close> for a byte \<open>b\<close>, that is
  below 256.
\<close>

definition unicode_IsLetter :: "int \<Rightarrow> bool" where
  "unicode_IsLetter r =
     ((65 \<le> r \<and> r \<le> 90) \<or> (97 \<le> r \<and> r \<le> 122) \<or> r = 170 \<or> r = 181 \<or> r = 186
      \<or> (192 \<le> r \<and> r \<le> 214) \<or> (216 \<le> r \<and> r \<le> 246) \<or> (248 \<le> r \<and> r \<le> 255))"

definition unicode_IsDigit :: "int \<Rightarrow> bool" where
  "unicode_IsDigit r = (48 \<le> r \<and> r \<le> 57)"

definition shouldKeepRune :: "int \<Rightarrow> bool \<times> bool" where
  "shouldKeepRune r =
     (if r = 0 then (False, True)
      else if unicode_IsLetter r \<or> unicode_IsDigit r \<or> r = 45 \<or> r = 95 then (True, False)
      else (False, True))"

text \<open>
  The loop of \<open>userInfo\<close> with the package-level \<open>upiBuffer\<close> as explicit state:
  \<open>buf\<close> is the buffer, \<open>n\<close> the number of bytes written so far.
\<close>

function userInfo_loop :: "byte list \<Rightarrow> byte list \<Rightarrow> nat \<Rightarrow> nat \<Rightarrow> (nat \<times> byte list) option" where
  "userInfo_loop upi buf i n =
     (if i < UPILen
      then (case index upi (int i) of
              None \<Rightarrow> None
            | Some b \<Rightarrow>
                (case shouldKeepRune (uint b) of
                   (keep, done) \<Rightarrow>
                     if done then Some (n, buf)
                     else if \<not> keep then userInfo_loop upi buf (i + 1) n
                     else if n < length buf
                          then userInfo_loop upi (buf[n := b]) (i + 1) (n + 1)
                          else None))
      else Some (n, buf))"
  by pat_completeness auto
termination
  by (relation "measure (\<lambda>(upi, buf, i, n). UPILen - i)") auto

declare userInfo_loop.simps [simp del]

text \<open>The result is the returned slice \<open>upiBuffer[:n]\<close> and the buffer left behind.\<close>

definition userInfo :: "byte list \<Rightarrow> byte list \<Rightarrow> (byte list \<times> byte list) option" where
  "userInfo upi upiBuffer = do {
     (n, buf) \<leftarrow> userInfo_loop upi upiBuffer 0 0;
     Some (take n buf, buf)
   }"

section \<open>Archive walker\<close>

text \<open>
  What \<open>filepath.Walk\<close> finds at a path: nothing that \<open>Lstat\<close> can read, a file
  (\<open>None\<close> when \<open>os.Open\<close> fails on it, otherwise its content), a directory whose
  entries cannot be listed, or a directory with its entries in the lexical order in which
  \<open>filepath.Walk\<close> visits them.
\<close>

datatype 'c node = Unreadable | File "'c option" | DirUnreadable | Dir "'c node list"

text \<open>
  The unbuffered channel that \<open>Walk\<close> returns, as its goroutine acts on it: the
  packets the consumer has received, how many more it will receive (\<open>None\<close>: it
  receives until the channel is closed, as \<open>for p := range queue\<close> does; a number: it
  stops receiving after that many, as a handler that returns early does), and whether
  \<open>close\<close> has run. A send completes when the consumer receives the packet; when the
  consumer receives no more, the send never completes.
\<close>

record 'p chan =
  sent :: "'p list"
  demand :: "nat option"
  closed :: bool

definition send :: "'p chan \<Rightarrow> 'p \<Rightarrow> 'p chan \<times> bool" where
  "send q p =
     (case demand q of
        None \<Rightarrow> (q\<lparr>sent := sent q @ [p]\<rparr>, True)
      | Some 0 \<Rightarrow> (q, False)
      | Some (Suc n) \<Rightarrow> (q\<lparr>sent := sent q @ [p], demand := Some n\<rparr>, True))"

text \<open>The loop \<open>for p := range rt.Packets() { q <- p }\<close>; \<open>False\<close> when a send
  never completes.\<close>

fun send_all :: "'p chan \<Rightarrow> 'p list \<Rightarrow> 'p chan \<times> bool" where
  "send_all q [] = (q, True)"
| "send_all q (p # ps) =
     (case send q p of
        (q', True) \<Rightarrow> send_all q' ps
      | (q', False) \<Rightarrow> (q', False))"

text \<open>How a call ends: it returns a nil error, it returns an error, or it never returns
  because a send blocks for ever.\<close>

datatype status = NoError | AnError | Blocked

text \<open>
  The function literal of \<open>walk\<close>, with the entry visited and whether
  \<open>filepath.Walk\<close> passes it an error. The parameter \<open>rd\<close> stands for
  \<open>NewReader(r, d).Packets()\<close>, which is declared outside the available sources: all
  the packets read from the opened file before the reader closes its channel, at the end
  of the file or at a frame it cannot decode. No error comes out of it.
\<close>

definition walkFn :: "('c \<Rightarrow> 'p list) \<Rightarrow> 'c node \<Rightarrow> bool \<Rightarrow> 'p chan \<Rightarrow> 'p chan \<times> status" where
  "walkFn rd n err q =
     (if err then (q, AnError)
      else (case n of
              Dir _ \<Rightarrow> (q, NoError)
            | DirUnreadable \<Rightarrow> (q, NoError)
            | Unreadable \<Rightarrow> (q, AnError)
            | File None \<Rightarrow> (q, AnError)
            | File (Some c) \<Rightarrow>
                (case send_all q (rd c) of
                   (q', True) \<Rightarrow> (q', NoError)
                 | (q', False) \<Rightarrow> (q', Blocked))))"

text \<open>
  \<open>filepath.Walk\<close> of the standard library, for a function that never returns
  \<open>SkipDir\<close>: depth first, and the first error returned ends the walk.
\<close>

fun filepath_walk :: "('c node \<Rightarrow> bool \<Rightarrow> 'p chan \<Rightarrow> 'p chan \<times> status) \<Rightarrow> 'c node \<Rightarrow> 'p chan \<Rightarrow> 'p chan \<times> status"
  and filepath_walk_names :: "('c node \<Rightarrow> bool \<Rightarrow> 'p chan \<Rightarrow> 'p chan \<times> status) \<Rightarrow> 'c node list \<Rightarrow> 'p chan \<Rightarrow> 'p chan \<times> status" where
  "filepath_walk fn (File f) q = fn (File f) False q"
| "filepath_walk fn Unreadable q = fn Unreadable True q"
| "filepath_walk fn DirUnreadable q = fn DirUnreadable True q"
| "filepath_walk fn (Dir ns) q =
     (case fn (Dir ns) False q of
        (q', NoError) \<Rightarrow> filepath_walk_names fn ns q'
      | (q', AnError) \<Rightarrow> (q', AnError)
      | (q', Blocked) \<Rightarrow> (q', Blocked))"
| "filepath_walk_names fn [] q = (q, NoError)"
| "filepath_walk_names fn (n # ns) q =
     (case filepath_walk fn n q of
        (q', NoError) \<Rightarrow> filepath_walk_names fn ns q'
      | (q', AnError) \<Rightarrow> (q', AnError)
      | (q', Blocked) \<Rightarrow> (q', Blocked))"

definition filepath_Walk :: "('c node \<Rightarrow> bool \<Rightarrow> 'p chan \<Rightarrow> 'p chan \<times> status) \<Rightarrow> 'c node \<Rightarrow> 'p chan \<Rightarrow> 'p chan \<times> status" where
  "filepath_Walk fn root q = filepath_walk fn root q"

text \<open>\<open>fs\<close> is the file system: what is found at each path.\<close>

definition walk :: "(string \<Rightarrow> 'c node) \<Rightarrow> ('c \<Rightarrow> 'p list) \<Rightarrow> string \<Rightarrow> 'p chan \<Rightarrow> 'p chan \<times> status" where
  "walk fs rd p q = filepath_Walk (walkFn rd) (fs p) q"

text \<open>The loop over the sorted paths in the goroutine of \<open>Walk\<close>: an error of
  \<open>walk\<close> makes the goroutine return.\<close>

fun Walk_loop :: "(string \<Rightarrow> 'c node) \<Rightarrow> ('c \<Rightarrow> 'p list) \<Rightarrow> string list \<Rightarrow> 'p chan \<Rightarrow> 'p chan \<times> status" where
  "Walk_loop fs rd [] q = (q, NoError)"
| "Walk_loop fs rd (p # ps) q =
     (case walk fs rd p q of
        (q', NoError) \<Rightarrow> Walk_loop fs rd ps q'
      | (q', AnError) \<Rightarrow> (q', AnError)
      | (q', Blocked) \<Rightarrow> (q', Blocked))"

text \<open>
  \<open>Walk\<close> by what its goroutine does to the channel it returns, for a consumer that
  receives \<open>recv\<close> packets (\<open>None\<close>: until the channel is closed). The deferred
  \<open>close\<close> runs when the goroutine returns, not when it is blocked in a send.
  \<open>packets d\<close> is the reader for the decoder \<open>d\<close>; \<open>None\<close> is the nil decoder.
  No statement of \<open>Walk\<close> or \<open>walk\<close> can panic: the decoder is used only when
  it is not nil, \<open>i.IsDir()\<close> is called only after the error test (the entry's
  \<open>FileInfo\<close> is nil only together with an error), and the channel is closed once, by
  the goroutine that sends on it. So the model has no such outcome, and the caller gets
  the channel back in every case.
\<close>

definition Walk ::
  "(string \<Rightarrow> 'c node) \<Rightarrow> ('d \<Rightarrow> 'c \<Rightarrow> 'p list) \<Rightarrow> string list \<Rightarrow> 'd option \<Rightarrow> nat option \<Rightarrow> 'p chan" where
  "Walk fs packets paths d recv =
     (let q = \<lparr>sent = [], demand = recv, closed = False\<rparr> in
      case d of
        None \<Rightarrow> q\<lparr>closed := True\<rparr>
      | Some dec \<Rightarrow>
          (case Walk_loop fs (packets dec) (sort paths) q of
             (q', NoError) \<Rightarrow> q'\<lparr>closed := True\<rparr>
           | (q', AnError) \<Rightarrow> q'\<lparr>closed := True\<rparr>
           | (q', Blocked) \<Rightarrow> q'))"

text \<open>
  Notions to state what the walker delivers. A tree in which nothing fails to be read
  (no entry without status, no file that cannot be opened, no directory that cannot be
  listed); the packets of all the files of a tree, in walking order; and what a walk
  meets in a tree, in walking order: the content of each file that opens, and
  \<open>None\<close> for each entry that fails.
\<close>

fun readable :: "'c node \<Rightarrow> bool" where
  "readable Unreadable = False"
| "readable (File None) = False"
| "readable (File (Some c)) = True"
| "readable DirUnreadable = False"
| "readable (Dir ns) = list_all readable ns"

fun contents :: "('c \<Rightarrow> 'p list) \<Rightarrow> 'c node \<Rightarrow> 'p list" where
  "contents rd (File (Some c)) = rd c"
| "contents rd (Dir ns) = concat (map (contents rd) ns)"
| "contents rd (File None) = []"
| "contents rd Unreadable = []"
| "contents rd DirUnreadable = []"

fun visits :: "'c node \<Rightarrow> 'c option list" where
  "visits Unreadable = [None]"
| "visits (File f) = [f]"
| "visits DirUnreadable = [None]"
| "visits (Dir ns) = concat (map visits ns)"

text \<open>
  The packets that a walk tries to send, given what it meets: those of the files met
  before the first failure. What a consumer with a given demand receives of a list of
  packets, whether it receives them all, and the demand left afterwards.
\<close>

definition attempted :: "('c \<Rightarrow> 'p list) \<Rightarrow> 'c option list \<Rightarrow> 'p list" where
  "attempted rd vs = concat (map rd (map the (takeWhile (\<lambda>v. v \<noteq> None) vs)))"

definition received :: "nat option \<Rightarrow> 'p list \<Rightarrow> 'p list" where
  "received d xs = (case d of None \<Rightarrow> xs | Some n \<Rightarrow> take n xs)"

definition receives_all :: "nat option \<Rightarrow> 'p list \<Rightarrow> bool" where
  "receives_all d xs = (case d of None \<Rightarrow> True | Some n \<Rightarrow> length xs \<le> n)"

definition demand_after :: "nat option \<Rightarrow> 'p list \<Rightarrow> nat option" where
  "demand_after d xs = (case d of None \<Rightarrow> None | Some n \<Rightarrow> Some (n - length xs))"

definition outcome :: "('c \<Rightarrow> 'p list) \<Rightarrow> 'c option list \<Rightarrow> 'p chan \<Rightarrow> 'p chan \<times> status" where
  "outcome rd vs q =
     (q\<lparr>sent := sent q @ received (demand q) (attempted rd vs),
        demand := demand_after (demand q) (attempted rd vs)\<rparr>,
      if \<not> receives_all (demand q) (attempted rd vs) then Blocked
      else if None \<in> set vs then AnError else NoError)"

section \<open>Time range of a request\<close>

datatype reqerror = InvalidRequestError string

definition Minute :: duration where "Minute = 60 * 1000000000"
definition Hour :: duration where "Hour = 60 * Minute"

definition MaxInterval :: duration where
  "MaxInterval = Hour * 24"

text \<open>
  Modelled from the spec: the constant \<open>Five\<close> is declared outside the available
  sources. The spec gives the granularity of the bounds as 5 minutes.
\<close>

definition Five :: duration where
  "Five = 5 * Minute"

text \<open>\<open>url.Values.Get\<close>: the first value of the key, or the empty string.\<close>

definition Get :: "(string \<Rightarrow> string list) \<Rightarrow> string \<Rightarrow> string" where
  "Get v key = (case v key of [] \<Rightarrow> [] | x # _ \<Rightarrow> x)"

text \<open>
  \<open>time.Parse(time.RFC3339, s)\<close>: the parameter \<open>rfc3339\<close> is the parser of the
  standard library, \<open>None\<close> where it rejects the string. On an error the returned time
  is the zero time.
\<close>

definition time_Parse :: "(string \<Rightarrow> time option) \<Rightarrow> string \<Rightarrow> time \<times> bool" where
  "time_Parse rfc3339 s = (case rfc3339 s of None \<Rightarrow> (0, True) | Some t \<Rightarrow> (t, False))"

text \<open>\<open>now\<close> is the reading of \<open>time.Now()\<close>; \<open>q\<close> is \<open>r.URL.Query()\<close>.\<close>

definition timeRange ::
  "(string \<Rightarrow> time option) \<Rightarrow> time \<Rightarrow> (string \<Rightarrow> string list) \<Rightarrow> duration \<Rightarrow> reqerror + time \<times> time" where
  "timeRange rfc3339 now q delta =
     (case time_Parse rfc3339 (Get q ''dtstart'') of (fd, err1) \<Rightarrow>
        if Get q ''dtstart'' \<noteq> [] \<and> err1
        then Inl (InvalidRequestError ''bad format dtstart query parameter'')
        else
          (case time_Parse rfc3339 (Get q ''dtend'') of (td, err2) \<Rightarrow>
             if Get q ''dtend'' \<noteq> [] \<and> err2
             then Inl (InvalidRequestError ''bad format dtend query parameter'')
             else
               (case (if time_IsZero fd \<and> time_IsZero td
                      then (time_Add now (Hour * (- 24)), now)
                      else (fd, td)) of (fd', td') \<Rightarrow>
                  if time_IsZero fd' \<or> time_IsZero td'
                  then Inl (InvalidRequestError ''both dtstart and dtend should be provided'')
                  else if time_Before td' fd' \<or> (delta > 0 \<and> time_Sub td' fd' > delta)
                  then Inl (InvalidRequestError ''invalid interval'')
                  else Inr (time_Truncate fd' Five, time_Truncate (time_Add td' Five) Five))))"

section \<open>Example data\<close>

text \<open>
  A packet of channel 1 and origin 2 whose sequence counter and data counter are \<open>n\<close>
  and whose coarse time and acquisition time are \<open>t\<close> seconds, and a stand-in for
  \<open>timutil.Join6\<close> that counts whole seconds; the examples below use them.
\<close>

definition examplePacket :: "uint32 \<Rightarrow> uint32 \<Rightarrow> Packet" where
  "examplePacket n t =
     \<lparr>VMUHeader = \<lparr>VMUHeader.Size = 64, VMUHeader.Channel = 1, VMUHeader.Origin = 2,
                   Sequence = n, Coarse = t, Fine = 0\<rparr>,
      DataHeader = \<lparr>Property = 16, VMUCommonHeader.Origin = 2,
                    AcqTime = ucast t * 1000000000, AuxTime = 0, Stream = 0,
                    Counter = n, UPI = replicate 32 0\<rparr>\<rparr>"

definition exampleJoin6 :: "uint32 \<Rightarrow> uint16 \<Rightarrow> time" where
  "exampleJoin6 c f = uint c * 1000000000"

section \<open>Properties of the gap detector\<close>

lemma gapByChannel_fst:
  "fst (gapByChannel join6 p prev d) \<longleftrightarrow>
     uint (Sequence (VMUHeader p)) - uint (Sequence (VMUHeader prev)) \<noteq> 1 \<and>
     (d = 0 \<or> time_Sub (Timestamp join6 (VMUHeader p)) (Timestamp join6 (VMUHeader prev)) \<le> d)"
  by (simp add: gapByChannel_def Let_def)

lemma gapByChannel_snd:
  "fst (gapByChannel join6 p prev d) \<Longrightarrow>
     snd (gapByChannel join6 p prev d) =
       \<lparr>Gap.Id = 0, Starts = Timestamp join6 (VMUHeader prev), Ends = Timestamp join6 (VMUHeader p),
        Last = uint (Sequence (VMUHeader prev)), First = uint (Sequence (VMUHeader p))\<rparr>"
  by (auto simp: gapByChannel_def Let_def zeroGap_def split: if_splits)

lemma gapByOrigin_fst:
  "fst (gapByOrigin gps p prev d) \<longleftrightarrow>
     uint (Counter (DataHeader p)) - uint (Counter (DataHeader prev)) \<noteq> 1 \<and>
     (d = 0 \<or> time_Sub (Acquisition gps (DataHeader p)) (Acquisition gps (DataHeader prev)) \<le> d)"
  by (simp add: gapByOrigin_def Let_def)

lemma gapByOrigin_snd:
  "fst (gapByOrigin gps p prev d) \<Longrightarrow>
     snd (gapByOrigin gps p prev d) =
       \<lparr>Gap.Id = 0, Starts = Acquisition gps (DataHeader prev), Ends = Acquisition gps (DataHeader p),
        Last = uint (Counter (DataHeader prev)), First = uint (Counter (DataHeader p))\<rparr>"
  by (auto simp: gapByOrigin_def Let_def zeroGap_def split: if_splits)

text \<open>
  Claim C1. For a packet \<open>p\<close> and the packet \<open>prev\<close> seen before it under the same
  identifier, and every maximum gap duration \<open>d\<close>, the gap detector (by channel, on the
  sequence counter and the VMU timestamp; by origin, on the data counter and the
  acquisition time) emits a gap exactly when the counter of \<open>p\<close> minus the counter of
  \<open>prev\<close> is not 1 and \<open>d\<close> is zero or the elapsed time is at most \<open>d\<close>. An
  emitted gap has the missing count |difference| - 1. A difference of exactly 1 emits no
  gap, and neither does an elapsed time above a positive \<open>d\<close>.
\<close>

theorem gap_emitted_iff:
  "(fst (gapByChannel join6 p prev d) \<longleftrightarrow>
      uint (Sequence (VMUHeader p)) - uint (Sequence (VMUHeader prev)) \<noteq> 1 \<and>
      (d = 0 \<or> time_Sub (Timestamp join6 (VMUHeader p)) (Timestamp join6 (VMUHeader prev)) \<le> d))
   \<and> (fst (gapByChannel join6 p prev d) \<longrightarrow>
        Gap_Missing (snd (gapByChannel join6 p prev d)) =
          \<bar>uint (Sequence (VMUHeader p)) - uint (Sequence (VMUHeader prev))\<bar> - 1)
   \<and> (fst (gapByOrigin gps p prev d) \<longleftrightarrow>
        uint (Counter (DataHeader p)) - uint (Counter (DataHeader prev)) \<noteq> 1 \<and>
        (d = 0 \<or> time_Sub (Acquisition gps (DataHeader p)) (Acquisition gps (DataHeader prev)) \<le> d))
   \<and> (fst (gapByOrigin gps p prev d) \<longrightarrow>
        Gap_Missing (snd (gapByOrigin gps p prev d)) =
          \<bar>uint (Counter (DataHeader p)) - uint (Counter (DataHeader prev))\<bar> - 1)
   \<and> (uint (Sequence (VMUHeader p)) - uint (Sequence (VMUHeader prev)) = 1 \<longrightarrow>
        \<not> fst (gapByChannel join6 p prev d))
   \<and> (uint (Counter (DataHeader p)) - uint (Counter (DataHeader prev)) = 1 \<longrightarrow>
        \<not> fst (gapByOrigin gps p prev d))
   \<and> (0 < d \<and> d < time_Sub (Timestamp join6 (VMUHeader p)) (Timestamp join6 (VMUHeader prev)) \<longrightarrow>
        \<not> fst (gapByChannel join6 p prev d))
   \<and> (0 < d \<and> d < time_Sub (Acquisition gps (DataHeader p)) (Acquisition gps (DataHeader prev)) \<longrightarrow>
        \<not> fst (gapByOrigin gps p prev d))"
proof -
  have m1: "fst (gapByChannel join6 p prev d) \<longrightarrow>
        Gap_Missing (snd (gapByChannel join6 p prev d)) =
          \<bar>uint (Sequence (VMUHeader p)) - uint (Sequence (VMUHeader prev))\<bar> - 1"
    by (simp add: gapByChannel_snd Gap_Missing_def)
  have m2: "fst (gapByOrigin gps p prev d) \<longrightarrow>
        Gap_Missing (snd (gapByOrigin gps p prev d)) =
          \<bar>uint (Counter (DataHeader p)) - uint (Counter (DataHeader prev))\<bar> - 1"
    by (simp add: gapByOrigin_snd Gap_Missing_def)
  show ?thesis
    using m1 m2 by (simp add: gapByChannel_fst gapByOrigin_fst)
qed

theorem gap_emitted_iff_witness:
  "fst (gapByChannel exampleJoin6 (examplePacket 14 6) (examplePacket 10 5) 1000000000)
   \<and> Gap_Missing (snd (gapByChannel exampleJoin6 (examplePacket 14 6) (examplePacket 10 5)
         1000000000)) = 3
   \<and> fst (gapByOrigin 0 (examplePacket 14 6) (examplePacket 10 5) 1000000000)
   \<and> Gap_Missing (snd (gapByOrigin 0 (examplePacket 14 6) (examplePacket 10 5)
         1000000000)) = 3
   \<and> uint (Sequence (VMUHeader (examplePacket 11 6)))
         - uint (Sequence (VMUHeader (examplePacket 10 5))) = 1
   \<and> \<not> fst (gapByChannel exampleJoin6 (examplePacket 11 6) (examplePacket 10 5) 1000000000)
   \<and> uint (Counter (DataHeader (examplePacket 11 6)))
         - uint (Counter (DataHeader (examplePacket 10 5))) = 1
   \<and> \<not> fst (gapByOrigin 0 (examplePacket 11 6) (examplePacket 10 5) 1000000000)
   \<and> 1000000000 < time_Sub (Timestamp exampleJoin6 (VMUHeader (examplePacket 14 9)))
         (Timestamp exampleJoin6 (VMUHeader (examplePacket 10 5)))
   \<and> \<not> fst (gapByChannel exampleJoin6 (examplePacket 14 9) (examplePacket 10 5) 1000000000)
   \<and> 1000000000 < time_Sub (Acquisition 0 (DataHeader (examplePacket 14 9)))
         (Acquisition 0 (DataHeader (examplePacket 10 5)))
   \<and> \<not> fst (gapByOrigin 0 (examplePacket 14 9) (examplePacket 10 5) 1000000000)"
  using gap_emitted_iff [of exampleJoin6 "examplePacket 14 6" "examplePacket 10 5" 1000000000 0]
    gap_emitted_iff [of exampleJoin6 "examplePacket 11 6" "examplePacket 10 5" 1000000000 0]
    gap_emitted_iff [of exampleJoin6 "examplePacket 14 9" "examplePacket 10 5" 1000000000 0]
  by (simp add: examplePacket_def exampleJoin6_def Timestamp_def Acquisition_def time_Sub_def
      time_Add_def maxDuration_def minDuration_def)

text \<open>
  Claim C3, as stated, fails: for the sequence counters 11 then 13 the emitted gap has
  \<open>First = 13\<close> and \<open>Last = 11\<close>, not \<open>First = 11\<close> and \<open>Last = 13\<close>.
\<close>

theorem gap_first_last_counterexample:
  "fst (gapByChannel exampleJoin6 (examplePacket 13 6) (examplePacket 11 5) 1000000000)
   \<and> First (snd (gapByChannel exampleJoin6 (examplePacket 13 6) (examplePacket 11 5)
         1000000000)) \<noteq> 11
   \<and> Last (snd (gapByChannel exampleJoin6 (examplePacket 13 6) (examplePacket 11 5)
         1000000000)) \<noteq> 13"
  by (simp add: gapByChannel_def Let_def zeroGap_def examplePacket_def exampleJoin6_def
      Timestamp_def time_Sub_def maxDuration_def minDuration_def)

text \<open>
  Claim C3, amended. For two consecutive packets of the same identifier with counters
  11 then 13, and an elapsed time within the maximum gap duration (or no maximum), a
  gap is emitted whose field \<open>Last\<close> is 11, the value last seen before the gap, whose
  field \<open>First\<close> is 13, the value first seen after it, and whose missing count is 1.
\<close>

theorem gap_brackets_11_13:
  "(Sequence (VMUHeader prev) = 11 \<and> Sequence (VMUHeader p) = 13 \<and>
      (d = 0 \<or> time_Sub (Timestamp join6 (VMUHeader p)) (Timestamp join6 (VMUHeader prev)) \<le> d)
    \<longrightarrow> fst (gapByChannel join6 p prev d)
        \<and> Last (snd (gapByChannel join6 p prev d)) = 11
        \<and> First (snd (gapByChannel join6 p prev d)) = 13
        \<and> Gap_Missing (snd (gapByChannel join6 p prev d)) = 1)
   \<and> (Counter (DataHeader prev) = 11 \<and> Counter (DataHeader p) = 13 \<and>
      (d = 0 \<or> time_Sub (Acquisition gps (DataHeader p)) (Acquisition gps (DataHeader prev)) \<le> d)
    \<longrightarrow> fst (gapByOrigin gps p prev d)
        \<and> Last (snd (gapByOrigin gps p prev d)) = 11
        \<and> First (snd (gapByOrigin gps p prev d)) = 13
        \<and> Gap_Missing (snd (gapByOrigin gps p prev d)) = 1)"
proof -
  have c: "fst (gapByChannel join6 p prev d)
        \<and> Last (snd (gapByChannel join6 p prev d)) = 11
        \<and> First (snd (gapByChannel join6 p prev d)) = 13
        \<and> Gap_Missing (snd (gapByChannel join6 p prev d)) = 1"
    if "Sequence (VMUHeader prev) = 11" "Sequence (VMUHeader p) = 13"
      "d = 0 \<or> time_Sub (Timestamp join6 (VMUHeader p)) (Timestamp join6 (VMUHeader prev)) \<le> d"
  proof -
    have f: "fst (gapByChannel join6 p prev d)"
      using that by (simp add: gapByChannel_fst)
    show ?thesis
      using f that(1,2) by (simp add: gapByChannel_snd [OF f] Gap_Missing_def)
  qed
  have o: "fst (gapByOrigin gps p prev d)
        \<and> Last (snd (gapByOrigin gps p prev d)) = 11
        \<and> First (snd (gapByOrigin gps p prev d)) = 13
        \<and> Gap_Missing (snd (gapByOrigin gps p prev d)) = 1"
    if "Counter (DataHeader prev) = 11" "Counter (DataHeader p) = 13"
      "d = 0 \<or> time_Sub (Acquisition gps (DataHeader p)) (Acquisition gps (DataHeader prev)) \<le> d"
  proof -
    have f: "fst (gapByOrigin gps p prev d)"
      using that by (simp add: gapByOrigin_fst)
    show ?thesis
      using f that(1,2) by (simp add: gapByOrigin_snd [OF f] Gap_Missing_def)
  qed
  show ?thesis using c o by blast
qed

theorem gap_brackets_11_13_witness:
  "Sequence (VMUHeader (examplePacket 11 5)) = 11
   \<and> Sequence (VMUHeader (examplePacket 13 6)) = 13
   \<and> time_Sub (Timestamp exampleJoin6 (VMUHeader (examplePacket 13 6)))
         (Timestamp exampleJoin6 (VMUHeader (examplePacket 11 5))) \<le> 1000000000
   \<and> fst (gapByChannel exampleJoin6 (examplePacket 13 6) (examplePacket 11 5) 1000000000)
   \<and> Last (snd (gapByChannel exampleJoin6 (examplePacket 13 6) (examplePacket 11 5)
         1000000000)) = 11
   \<and> First (snd (gapByChannel exampleJoin6 (examplePacket 13 6) (examplePacket 11 5)
         1000000000)) = 13
   \<and> Gap_Missing (snd (gapByChannel exampleJoin6 (examplePacket 13 6) (examplePacket 11 5)
         1000000000)) = 1
   \<and> Counter (DataHeader (examplePacket 11 5)) = 11
   \<and> Counter (DataHeader (examplePacket 13 6)) = 13
   \<and> time_Sub (Acquisition 0 (DataHeader (examplePacket 13 6)))
         (Acquisition 0 (DataHeader (examplePacket 11 5))) \<le> 1000000000
   \<and> fst (gapByOrigin 0 (examplePacket 13 6) (examplePacket 11 5) 1000000000)
   \<and> Last (snd (gapByOrigin 0 (examplePacket 13 6) (examplePacket 11 5) 1000000000)) = 11
   \<and> First (snd (gapByOrigin 0 (examplePacket 13 6) (examplePacket 11 5) 1000000000)) = 13
   \<and> Gap_Missing (snd (gapByOrigin 0 (examplePacket 13 6) (examplePacket 11 5)
         1000000000)) = 1"
proof -
  have h: "Sequence (VMUHeader (examplePacket 11 5)) = 11
     \<and> Sequence (VMUHeader (examplePacket 13 6)) = 13
     \<and> time_Sub (Timestamp exampleJoin6 (VMUHeader (examplePacket 13 6)))
         (Timestamp exampleJoin6 (VMUHeader (examplePacket 11 5))) \<le> 1000000000
     \<and> Counter (DataHeader (examplePacket 11 5)) = 11
     \<and> Counter (DataHeader (examplePacket 13 6)) = 13
     \<and> time_Sub (Acquisition 0 (DataHeader (examplePacket 13 6)))
         (Acquisition 0 (DataHeader (examplePacket 11 5))) \<le> 1000000000"
    by (simp add: examplePacket_def exampleJoin6_def Timestamp_def Acquisition_def time_Sub_def
        time_Add_def maxDuration_def minDuration_def)
  show ?thesis
    using h gap_brackets_11_13 [of "examplePacket 11 5" "examplePacket 13 6" 1000000000
        exampleJoin6 0]
    by blast
qed

section \<open>Properties of the count command\<close>

lemma ucast_sub_32_64:
  fixes a b :: uint32
  assumes "b \<le> a"
  shows "(ucast (a - b) :: uint64) = ucast a - ucast b"
proof -
  have le: "unat b \<le> unat a" using assms by (simp add: word_le_nat_alt)
  have "(ucast (a - b) :: uint64) = of_nat (unat (a - b))" by (simp only: of_nat_unat)
  also have "\<dots> = of_nat (unat a - unat b)" using assms by (simp only: unat_sub)
  also have "\<dots> = of_nat (unat a) - of_nat (unat b)" using le by (rule of_nat_diff)
  also have "\<dots> = ucast a - ucast b" by (simp only: of_nat_unat)
  finally show ?thesis .
qed


lemma missByChannel_eq:
  "missByChannel p prev =
     (if Sequence (VMUHeader p) < Sequence (VMUHeader prev) then 0
      else (ucast (Sequence (VMUHeader p)) :: uint64) - ucast (Sequence (VMUHeader prev)) - 1)"
  by (auto simp: missByChannel_def ucast_sub_32_64 not_less)

lemma missByOrigin_eq:
  "missByOrigin p prev =
     (if Counter (DataHeader p) < Counter (DataHeader prev) then 0
      else (ucast (Counter (DataHeader p)) :: uint64) - ucast (Counter (DataHeader prev)) - 1)"
  by (auto simp: missByOrigin_def ucast_sub_32_64 not_less)

lemma unat_ucast_32_64:
  fixes x :: uint32
  shows "unat (ucast x :: uint64) = unat x"
proof -
  have "uint (ucast x :: uint64) = uint x"
    by (rule uint_up_ucast) (simp add: is_up)
  then show ?thesis by (metis unat_eq_nat_uint)
qed

lemma unat_missBy_gt:
  fixes a b :: uint32
  assumes "b < a"
  shows "unat ((ucast (a - b) :: uint64) - 1) = unat a - unat b - 1"
proof -
  have nz: "a - b \<noteq> 0" using assms by simp
  have u: "unat (ucast (a - b) :: uint64) = unat (a - b)"
    by (rule unat_ucast_32_64)
  have s: "unat (a - b) = unat a - unat b"
    using assms by (simp add: unat_sub)
  have z: "(ucast (a - b) :: uint64) \<noteq> 0"
    by (metis nz u unsigned_eq_0_iff)
  show ?thesis using u s z
    by (simp add: unat_minus_one)
qed

lemma runCount_loop_append:
  "runCount_loop b keep st (xs @ ys) = runCount_loop b keep (runCount_loop b keep st xs) ys"
proof (induction xs arbitrary: st)
  case Nil
  show ?case by simp
next
  case (Cons x xs)
  then show ?case by (cases x) simp_all
qed

lemma countStep_dropped:
  "bad \<and> \<not> keep \<Longrightarrow> countStep b keep st p bad = st"
  by (simp add: countStep_def Let_def)

lemma countStep_other_group:
  "getBy b p \<noteq> k \<Longrightarrow>
     stats (countStep b keep st p bad) k = stats st k \<and>
     seen (countStep b keep st p bad) k = seen st k"
  by (simp add: countStep_def Let_def)

lemma countStep_counted:
  assumes "\<not> (bad \<and> \<not> keep)"
  shows "seen (countStep b keep st p bad) (getBy b p) = Some p"
    and "\<exists>cz. stats (countStep b keep st p bad) (getBy b p) = Some cz \<and>
           Missing cz =
             Missing (case stats st (getBy b p) of None \<Rightarrow> zeroCoze | Some c \<Rightarrow> c)
             + (case seen st (getBy b p) of None \<Rightarrow> 0 | Some prev \<Rightarrow> missBy b p prev)"
  using assms by (auto simp: countStep_def Let_def split: option.splits)

lemma runCount_loop_other:
  assumes "\<forall>d \<in> set ds. (case d of ErrSkip \<Rightarrow> True
                          | Decoded m bad \<Rightarrow> (bad \<and> \<not> keep) \<or> getBy b m \<noteq> k)"
  shows "stats (runCount_loop b keep st ds) k = stats st k \<and>
         seen (runCount_loop b keep st ds) k = seen st k"
  using assms
proof (induction ds arbitrary: st)
  case Nil
  show ?case by simp
next
  case (Cons d ds)
  show ?case
  proof (cases d)
    case ErrSkip
    then show ?thesis using Cons by simp
  next
    case (Decoded m bad)
    have rest: "\<forall>d \<in> set ds. (case d of ErrSkip \<Rightarrow> True
                          | Decoded m bad \<Rightarrow> (bad \<and> \<not> keep) \<or> getBy b m \<noteq> k)"
      using Cons.prems by simp
    have here: "(bad \<and> \<not> keep) \<or> getBy b m \<noteq> k"
      using Cons.prems Decoded by simp
    have one: "stats (countStep b keep st m bad) k = stats st k \<and>
        seen (countStep b keep st m bad) k = seen st k"
      using here countStep_dropped [of bad keep b st m] countStep_other_group [of b m k keep st bad]
      by auto
    show ?thesis
      using Cons.IH [OF rest, of "countStep b keep st m bad"] one Decoded by simp
  qed
qed

lemma runCount_loop_pair:
  assumes "\<not> (bad0 \<and> \<not> keep)" and "\<not> (bad1 \<and> \<not> keep)" and "getBy b prev = getBy b p"
    and "\<forall>d \<in> set mid. (case d of ErrSkip \<Rightarrow> True
                          | Decoded m bad \<Rightarrow> (bad \<and> \<not> keep) \<or> getBy b m \<noteq> getBy b p)"
  shows "\<exists>cz0 cz.
      stats (runCount_loop b keep st (pre @ [Decoded prev bad0])) (getBy b p) = Some cz0
      \<and> stats (runCount_loop b keep st (pre @ Decoded prev bad0 # mid @ [Decoded p bad1]))
            (getBy b p) = Some cz
      \<and> Missing cz = Missing cz0 + missBy b p prev"
proof -
  let ?k = "getBy b p"
  let ?s0 = "runCount_loop b keep st pre"
  let ?s1 = "countStep b keep ?s0 prev bad0"
  let ?s2 = "runCount_loop b keep ?s1 mid"
  let ?s3 = "countStep b keep ?s2 p bad1"
  have e1: "runCount_loop b keep st (pre @ [Decoded prev bad0]) = ?s1"
    by (simp add: runCount_loop_append)
  have e3: "runCount_loop b keep st (pre @ Decoded prev bad0 # mid @ [Decoded p bad1]) = ?s3"
    by (simp add: runCount_loop_append)
  obtain cz0 where cz0: "stats ?s1 ?k = Some cz0"
    using countStep_counted(2) [OF assms(1), of b ?s0 prev] assms(3) by auto
  have sn1: "seen ?s1 ?k = Some prev"
    using countStep_counted(1) [OF assms(1), of b ?s0 prev] assms(3) by simp
  have keep2: "stats ?s2 ?k = stats ?s1 ?k \<and> seen ?s2 ?k = seen ?s1 ?k"
    using assms(4) by (rule runCount_loop_other)
  obtain cz where cz: "stats ?s3 ?k = Some cz"
    and m: "Missing cz =
             Missing (case stats ?s2 ?k of None \<Rightarrow> zeroCoze | Some c \<Rightarrow> c)
             + (case seen ?s2 ?k of None \<Rightarrow> 0 | Some prev \<Rightarrow> missBy b p prev)"
    using countStep_counted(2) [OF assms(2), of b ?s2 p] by blast
  have "Missing cz = Missing cz0 + missBy b p prev"
    using m keep2 cz0 sn1 by simp
  then show ?thesis
    unfolding e1 e3 using cz0 cz by blast
qed

lemma runCount_loop_first:
  assumes "\<not> (bad \<and> \<not> keep)"
    and "\<forall>d \<in> set pre. (case d of ErrSkip \<Rightarrow> True
                          | Decoded m bad \<Rightarrow> (bad \<and> \<not> keep) \<or> getBy b m \<noteq> getBy b p)"
  shows "\<exists>cz. runCount b keep (pre @ [Decoded p bad]) (getBy b p) = Some cz \<and> Missing cz = 0"
proof -
  let ?k = "getBy b p"
  let ?e = "\<lparr>stats = Map.empty, seen = Map.empty\<rparr> :: count_state"
  let ?s0 = "runCount_loop b keep ?e pre"
  have k: "stats ?s0 ?k = stats ?e ?k \<and> seen ?s0 ?k = seen ?e ?k"
    using assms(2) by (rule runCount_loop_other)
  obtain cz where cz: "stats (countStep b keep ?s0 p bad) ?k = Some cz"
    and m: "Missing cz =
             Missing (case stats ?s0 ?k of None \<Rightarrow> zeroCoze | Some c \<Rightarrow> c)
             + (case seen ?s0 ?k of None \<Rightarrow> 0 | Some prev \<Rightarrow> missBy b p prev)"
    using countStep_counted(2) [OF assms(1), of b ?s0 p] by blast
  have "Missing cz = 0" using m k by (simp add: zeroCoze_def)
  then show ?thesis
    using cz by (simp add: runCount_def runCount_loop_append)
qed

lemma grouping_simps:
  "getBy ByChannel = byChannel" "getBy ByOrigin = byOrigin"
  "missBy ByChannel = missByChannel" "missBy ByOrigin = missByOrigin"
  by (simp_all add: getBy_def missBy_def)

text \<open>
  Claim C10. In the count command the increment that a packet adds to the cumulative
  missing count of its group is 0 when its counter is strictly below that of the packet
  seen before it, and otherwise the difference of the two counters minus 1, taken on
  unsigned 64-bit integers: two equal counters add 2^64 - 1, and a larger counter adds
  the integer difference minus 1. The sequence counter is used when counting by
  channel, the data counter when counting by origin. In a run of the command from its
  empty maps, a counted packet is remembered for its group, and for every pair of
  packets that follow each other in a group (only skipped results, dropped invalid
  packets and packets of other groups between them) the missing count of the group after
  the second is its missing count after the first plus that increment; the first
  counted packet of a group leaves the missing count at 0.
\<close>

theorem count_missing_increment:
  "missByChannel p prev =
     (if Sequence (VMUHeader p) < Sequence (VMUHeader prev) then 0
      else (ucast (Sequence (VMUHeader p)) :: uint64) - ucast (Sequence (VMUHeader prev)) - 1)
   \<and> missByOrigin p prev =
     (if Counter (DataHeader p) < Counter (DataHeader prev) then 0
      else (ucast (Counter (DataHeader p)) :: uint64) - ucast (Counter (DataHeader prev)) - 1)
   \<and> (Sequence (VMUHeader p) = Sequence (VMUHeader prev) \<longrightarrow>
        unat (missByChannel p prev) = 2 ^ 64 - 1)
   \<and> (Counter (DataHeader p) = Counter (DataHeader prev) \<longrightarrow>
        unat (missByOrigin p prev) = 2 ^ 64 - 1)
   \<and> (Sequence (VMUHeader prev) < Sequence (VMUHeader p) \<longrightarrow>
        unat (missByChannel p prev) =
          unat (Sequence (VMUHeader p)) - unat (Sequence (VMUHeader prev)) - 1)
   \<and> (Counter (DataHeader prev) < Counter (DataHeader p) \<longrightarrow>
        unat (missByOrigin p prev) =
          unat (Counter (DataHeader p)) - unat (Counter (DataHeader prev)) - 1)
   \<and> (\<not> (bad0 \<and> \<not> keepInvalid) \<and> \<not> (bad1 \<and> \<not> keepInvalid)
        \<and> VMUHeader.Channel (VMUHeader prev) = VMUHeader.Channel (VMUHeader p)
        \<and> (\<forall>d \<in> set mid. (case d of ErrSkip \<Rightarrow> True
               | Decoded m bad \<Rightarrow> (bad \<and> \<not> keepInvalid)
                   \<or> VMUHeader.Channel (VMUHeader m) \<noteq> VMUHeader.Channel (VMUHeader p)))
        \<longrightarrow>
        (\<exists>cz0 cz.
           runCount ByChannel keepInvalid (pre @ [Decoded prev bad0])
             (VMUHeader.Channel (VMUHeader p)) = Some cz0
           \<and> runCount ByChannel keepInvalid (pre @ Decoded prev bad0 # mid @ [Decoded p bad1])
               (VMUHeader.Channel (VMUHeader p)) = Some cz
           \<and> Missing cz = Missing cz0 +
               (if Sequence (VMUHeader p) < Sequence (VMUHeader prev) then 0
                else ucast (Sequence (VMUHeader p)) - ucast (Sequence (VMUHeader prev)) - 1)))
   \<and> (\<not> (bad0 \<and> \<not> keepInvalid) \<and> \<not> (bad1 \<and> \<not> keepInvalid)
        \<and> VMUCommonHeader.Origin (DataHeader prev) = VMUCommonHeader.Origin (DataHeader p)
        \<and> (\<forall>d \<in> set mid. (case d of ErrSkip \<Rightarrow> True
               | Decoded m bad \<Rightarrow> (bad \<and> \<not> keepInvalid)
                   \<or> VMUCommonHeader.Origin (DataHeader m)
                       \<noteq> VMUCommonHeader.Origin (DataHeader p)))
        \<longrightarrow>
        (\<exists>cz0 cz.
           runCount ByOrigin keepInvalid (pre @ [Decoded prev bad0])
             (VMUCommonHeader.Origin (DataHeader p)) = Some cz0
           \<and> runCount ByOrigin keepInvalid (pre @ Decoded prev bad0 # mid @ [Decoded p bad1])
               (VMUCommonHeader.Origin (DataHeader p)) = Some cz
           \<and> Missing cz = Missing cz0 +
               (if Counter (DataHeader p) < Counter (DataHeader prev) then 0
                else ucast (Counter (DataHeader p)) - ucast (Counter (DataHeader prev)) - 1)))
   \<and> (\<not> (bad1 \<and> \<not> keepInvalid)
        \<and> (\<forall>d \<in> set pre. (case d of ErrSkip \<Rightarrow> True
               | Decoded m bad \<Rightarrow> (bad \<and> \<not> keepInvalid)
                   \<or> VMUHeader.Channel (VMUHeader m) \<noteq> VMUHeader.Channel (VMUHeader p)))
        \<longrightarrow>
        (\<exists>cz. runCount ByChannel keepInvalid (pre @ [Decoded p bad1])
                (VMUHeader.Channel (VMUHeader p)) = Some cz \<and> Missing cz = 0))
   \<and> (\<not> (bad1 \<and> \<not> keepInvalid)
        \<and> (\<forall>d \<in> set pre. (case d of ErrSkip \<Rightarrow> True
               | Decoded m bad \<Rightarrow> (bad \<and> \<not> keepInvalid)
                   \<or> VMUCommonHeader.Origin (DataHeader m)
                       \<noteq> VMUCommonHeader.Origin (DataHeader p)))
        \<longrightarrow>
        (\<exists>cz. runCount ByOrigin keepInvalid (pre @ [Decoded p bad1])
                (VMUCommonHeader.Origin (DataHeader p)) = Some cz \<and> Missing cz = 0))"
proof -
  have eqC: "Sequence (VMUHeader p) = Sequence (VMUHeader prev) \<longrightarrow>
        unat (missByChannel p prev) = 2 ^ 64 - 1"
    by (simp add: missByChannel_def unsigned_minus_1_eq_mask mask_eq_exp_minus_1)
  have eqO: "Counter (DataHeader p) = Counter (DataHeader prev) \<longrightarrow>
        unat (missByOrigin p prev) = 2 ^ 64 - 1"
    by (simp add: missByOrigin_def unsigned_minus_1_eq_mask mask_eq_exp_minus_1)
  have gtC: "Sequence (VMUHeader prev) < Sequence (VMUHeader p) \<longrightarrow>
        unat (missByChannel p prev) =
          unat (Sequence (VMUHeader p)) - unat (Sequence (VMUHeader prev)) - 1"
    by (auto simp: missByChannel_def unat_missBy_gt)
  have gtO: "Counter (DataHeader prev) < Counter (DataHeader p) \<longrightarrow>
        unat (missByOrigin p prev) =
          unat (Counter (DataHeader p)) - unat (Counter (DataHeader prev)) - 1"
    by (auto simp: missByOrigin_def unat_missBy_gt)
  let ?e = "\<lparr>stats = Map.empty, seen = Map.empty\<rparr> :: count_state"
  have pairC: "\<exists>cz0 cz.
           runCount ByChannel keepInvalid (pre @ [Decoded prev bad0])
             (VMUHeader.Channel (VMUHeader p)) = Some cz0
           \<and> runCount ByChannel keepInvalid (pre @ Decoded prev bad0 # mid @ [Decoded p bad1])
               (VMUHeader.Channel (VMUHeader p)) = Some cz
           \<and> Missing cz = Missing cz0 +
               (if Sequence (VMUHeader p) < Sequence (VMUHeader prev) then 0
                else ucast (Sequence (VMUHeader p)) - ucast (Sequence (VMUHeader prev)) - 1)"
    if "\<not> (bad0 \<and> \<not> keepInvalid)" "\<not> (bad1 \<and> \<not> keepInvalid)"
      "VMUHeader.Channel (VMUHeader prev) = VMUHeader.Channel (VMUHeader p)"
      "\<forall>d \<in> set mid. (case d of ErrSkip \<Rightarrow> True
               | Decoded m bad \<Rightarrow> (bad \<and> \<not> keepInvalid)
                   \<or> VMUHeader.Channel (VMUHeader m) \<noteq> VMUHeader.Channel (VMUHeader p))"
    using runCount_loop_pair [of bad0 keepInvalid bad1 ByChannel prev p mid ?e pre] that
    unfolding grouping_simps byChannel_def runCount_def missByChannel_eq by blast
  have pairO: "\<exists>cz0 cz.
           runCount ByOrigin keepInvalid (pre @ [Decoded prev bad0])
             (VMUCommonHeader.Origin (DataHeader p)) = Some cz0
           \<and> runCount ByOrigin keepInvalid (pre @ Decoded prev bad0 # mid @ [Decoded p bad1])
               (VMUCommonHeader.Origin (DataHeader p)) = Some cz
           \<and> Missing cz = Missing cz0 +
               (if Counter (DataHeader p) < Counter (DataHeader prev) then 0
                else ucast (Counter (DataHeader p)) - ucast (Counter (DataHeader prev)) - 1)"
    if "\<not> (bad0 \<and> \<not> keepInvalid)" "\<not> (bad1 \<and> \<not> keepInvalid)"
      "VMUCommonHeader.Origin (DataHeader prev) = VMUCommonHeader.Origin (DataHeader p)"
      "\<forall>d \<in> set mid. (case d of ErrSkip \<Rightarrow> True
               | Decoded m bad \<Rightarrow> (bad \<and> \<not> keepInvalid)
                   \<or> VMUCommonHeader.Origin (DataHeader m)
                       \<noteq> VMUCommonHeader.Origin (DataHeader p))"
    using runCount_loop_pair [of bad0 keepInvalid bad1 ByOrigin prev p mid ?e pre] that
    unfolding grouping_simps byOrigin_def runCount_def missByOrigin_eq by blast
  have firstC: "\<exists>cz. runCount ByChannel keepInvalid (pre @ [Decoded p bad1])
                (VMUHeader.Channel (VMUHeader p)) = Some cz \<and> Missing cz = 0"
    if "\<not> (bad1 \<and> \<not> keepInvalid)"
      "\<forall>d \<in> set pre. (case d of ErrSkip \<Rightarrow> True
               | Decoded m bad \<Rightarrow> (bad \<and> \<not> keepInvalid)
                   \<or> VMUHeader.Channel (VMUHeader m) \<noteq> VMUHeader.Channel (VMUHeader p))"
    using runCount_loop_first [of bad1 keepInvalid pre ByChannel p] that
    unfolding grouping_simps byChannel_def by blast
  have firstO: "\<exists>cz. runCount ByOrigin keepInvalid (pre @ [Decoded p bad1])
                (VMUCommonHeader.Origin (DataHeader p)) = Some cz \<and> Missing cz = 0"
    if "\<not> (bad1 \<and> \<not> keepInvalid)"
      "\<forall>d \<in> set pre. (case d of ErrSkip \<Rightarrow> True
               | Decoded m bad \<Rightarrow> (bad \<and> \<not> keepInvalid)
                   \<or> VMUCommonHeader.Origin (DataHeader m)
                       \<noteq> VMUCommonHeader.Origin (DataHeader p))"
    using runCount_loop_first [of bad1 keepInvalid pre ByOrigin p] that
    unfolding grouping_simps byOrigin_def by blast
  show ?thesis
    using eqC eqO gtC gtO missByChannel_eq [of p prev] missByOrigin_eq [of p prev]
      pairC pairO firstC firstO
    by blast
qed

theorem count_missing_increment_witness:
  "Sequence (VMUHeader (examplePacket 7 6)) = Sequence (VMUHeader (examplePacket 7 5))
   \<and> unat (missByChannel (examplePacket 7 6) (examplePacket 7 5)) = 18446744073709551615
   \<and> Counter (DataHeader (examplePacket 7 6)) = Counter (DataHeader (examplePacket 7 5))
   \<and> unat (missByOrigin (examplePacket 7 6) (examplePacket 7 5)) = 18446744073709551615
   \<and> Sequence (VMUHeader (examplePacket 7 5)) < Sequence (VMUHeader (examplePacket 10 6))
   \<and> unat (missByChannel (examplePacket 10 6) (examplePacket 7 5)) = 2
   \<and> Counter (DataHeader (examplePacket 7 5)) < Counter (DataHeader (examplePacket 10 6))
   \<and> unat (missByOrigin (examplePacket 10 6) (examplePacket 7 5)) = 2
   \<and> (\<exists>cz0 cz.
         runCount ByChannel False [Decoded (examplePacket 7 5) False] 1 = Some cz0
         \<and> runCount ByChannel False
               [Decoded (examplePacket 7 5) False, ErrSkip, Decoded (examplePacket 99 5) True,
                Decoded (examplePacket 10 6) False] 1 = Some cz
         \<and> Missing cz0 = 0 \<and> Missing cz = 2)
   \<and> (\<exists>cz0 cz.
         runCount ByOrigin False [Decoded (examplePacket 7 5) False] 2 = Some cz0
         \<and> runCount ByOrigin False
               [Decoded (examplePacket 7 5) False, ErrSkip, Decoded (examplePacket 99 5) True,
                Decoded (examplePacket 7 6) False] 2 = Some cz
         \<and> Missing cz0 = 0 \<and> Missing cz = 18446744073709551615)"
proof -
  let ?mid = "[ErrSkip, Decoded (examplePacket 99 5) True]"
  note eq = count_missing_increment [of "examplePacket 7 6" "examplePacket 7 5" False False False
      ?mid "[]"]
  note gt = count_missing_increment [of "examplePacket 10 6" "examplePacket 7 5" False False False
      ?mid "[]"]
  note fst = count_missing_increment [of "examplePacket 7 5" "examplePacket 7 5" False False False
      ?mid "[]"]
  have ch: "VMUHeader.Channel (VMUHeader (examplePacket n t)) = 1"
    and og: "VMUCommonHeader.Origin (DataHeader (examplePacket n t)) = 2" for n t
    by (simp_all add: examplePacket_def)
  have h1: "Sequence (VMUHeader (examplePacket 7 6)) = Sequence (VMUHeader (examplePacket 7 5))"
    and h2: "Counter (DataHeader (examplePacket 7 6)) = Counter (DataHeader (examplePacket 7 5))"
    and h3: "Sequence (VMUHeader (examplePacket 7 5)) < Sequence (VMUHeader (examplePacket 10 6))"
    and h4: "Counter (DataHeader (examplePacket 7 5)) < Counter (DataHeader (examplePacket 10 6))"
    by (simp_all add: examplePacket_def)
  have n: "(2::nat) ^ 64 - 1 = 18446744073709551615" by simp
  have u: "unat (Sequence (VMUHeader (examplePacket 10 6)))
       - unat (Sequence (VMUHeader (examplePacket 7 5))) - 1 = 2"
    "unat (Counter (DataHeader (examplePacket 10 6)))
       - unat (Counter (DataHeader (examplePacket 7 5))) - 1 = 2"
    by (simp_all add: examplePacket_def)
  have c1: "unat (missByChannel (examplePacket 7 6) (examplePacket 7 5)) = 18446744073709551615"
  proof -
    from eq h1 have "unat (missByChannel (examplePacket 7 6) (examplePacket 7 5)) = 2 ^ 64 - 1"
      by blast
    then show ?thesis by (simp only: n)
  qed
  have c2: "unat (missByOrigin (examplePacket 7 6) (examplePacket 7 5)) = 18446744073709551615"
  proof -
    from eq h2 have "unat (missByOrigin (examplePacket 7 6) (examplePacket 7 5)) = 2 ^ 64 - 1"
      by blast
    then show ?thesis by (simp only: n)
  qed
  have c3: "unat (missByChannel (examplePacket 10 6) (examplePacket 7 5)) = 2"
  proof -
    from gt h3 have "unat (missByChannel (examplePacket 10 6) (examplePacket 7 5)) =
        unat (Sequence (VMUHeader (examplePacket 10 6)))
          - unat (Sequence (VMUHeader (examplePacket 7 5))) - 1"
      by blast
    then show ?thesis by (simp only: u)
  qed
  have c4: "unat (missByOrigin (examplePacket 10 6) (examplePacket 7 5)) = 2"
  proof -
    from gt h4 have "unat (missByOrigin (examplePacket 10 6) (examplePacket 7 5)) =
        unat (Counter (DataHeader (examplePacket 10 6)))
          - unat (Counter (DataHeader (examplePacket 7 5))) - 1"
      by blast
    then show ?thesis by (simp only: u)
  qed
  have midC: "\<forall>d \<in> set ?mid. (case d of ErrSkip \<Rightarrow> True
               | Decoded m bad \<Rightarrow> (bad \<and> \<not> False)
                   \<or> VMUHeader.Channel (VMUHeader m) \<noteq> VMUHeader.Channel (VMUHeader p))" for p
    by simp
  have midO: "\<forall>d \<in> set ?mid. (case d of ErrSkip \<Rightarrow> True
               | Decoded m bad \<Rightarrow> (bad \<and> \<not> False)
                   \<or> VMUCommonHeader.Origin (DataHeader m)
                       \<noteq> VMUCommonHeader.Origin (DataHeader p))" for p
    by simp
  have preE: "\<forall>d \<in> set ([] :: decoded list). (case d of ErrSkip \<Rightarrow> True
               | Decoded m bad \<Rightarrow> (bad \<and> \<not> False) \<or> P m)" for P
    by simp
  have flags: "\<not> (False \<and> \<not> False)" by simp
  have iC: "(if Sequence (VMUHeader (examplePacket 10 6)) < Sequence (VMUHeader (examplePacket 7 5))
             then 0
             else ucast (Sequence (VMUHeader (examplePacket 10 6)))
               - ucast (Sequence (VMUHeader (examplePacket 7 5))) - 1) = (2 :: uint64)"
    by (simp add: examplePacket_def)
  have iO: "(if Counter (DataHeader (examplePacket 7 6)) < Counter (DataHeader (examplePacket 7 5))
             then 0
             else ucast (Counter (DataHeader (examplePacket 7 6)))
               - ucast (Counter (DataHeader (examplePacket 7 5))) - 1) = (- 1 :: uint64)"
    by (simp add: examplePacket_def)
  obtain a0 a where a: "runCount ByChannel False ([] @ [Decoded (examplePacket 7 5) False])
        (VMUHeader.Channel (VMUHeader (examplePacket 10 6))) = Some a0"
      "runCount ByChannel False ([] @ Decoded (examplePacket 7 5) False # ?mid
          @ [Decoded (examplePacket 10 6) False])
        (VMUHeader.Channel (VMUHeader (examplePacket 10 6))) = Some a"
      "Missing a = Missing a0 +
         (if Sequence (VMUHeader (examplePacket 10 6)) < Sequence (VMUHeader (examplePacket 7 5))
          then 0
          else ucast (Sequence (VMUHeader (examplePacket 10 6)))
            - ucast (Sequence (VMUHeader (examplePacket 7 5))) - 1)"
  proof -
    have "VMUHeader.Channel (VMUHeader (examplePacket 7 5))
        = VMUHeader.Channel (VMUHeader (examplePacket 10 6))"
      by (simp only: ch)
    with gt flags midC [of "examplePacket 10 6"] show ?thesis
      using that by blast
  qed
  obtain a0' where a0': "runCount ByChannel False ([] @ [Decoded (examplePacket 7 5) False])
        (VMUHeader.Channel (VMUHeader (examplePacket 7 5))) = Some a0'" "Missing a0' = 0"
    using fst flags preE [of "\<lambda>m. VMUHeader.Channel (VMUHeader m)
        \<noteq> VMUHeader.Channel (VMUHeader (examplePacket 7 5))"] by blast
  have am: "Missing a0 = 0" "Missing a = 2"
    using a a0' unfolding ch iC by simp_all
  obtain b0 b where b: "runCount ByOrigin False ([] @ [Decoded (examplePacket 7 5) False])
        (VMUCommonHeader.Origin (DataHeader (examplePacket 7 6))) = Some b0"
      "runCount ByOrigin False ([] @ Decoded (examplePacket 7 5) False # ?mid
          @ [Decoded (examplePacket 7 6) False])
        (VMUCommonHeader.Origin (DataHeader (examplePacket 7 6))) = Some b"
      "Missing b = Missing b0 +
         (if Counter (DataHeader (examplePacket 7 6)) < Counter (DataHeader (examplePacket 7 5))
          then 0
          else ucast (Counter (DataHeader (examplePacket 7 6)))
            - ucast (Counter (DataHeader (examplePacket 7 5))) - 1)"
  proof -
    have "VMUCommonHeader.Origin (DataHeader (examplePacket 7 5))
        = VMUCommonHeader.Origin (DataHeader (examplePacket 7 6))"
      by (simp only: og)
    with eq flags midO [of "examplePacket 7 6"] show ?thesis
      using that by blast
  qed
  obtain b0' where b0': "runCount ByOrigin False ([] @ [Decoded (examplePacket 7 5) False])
        (VMUCommonHeader.Origin (DataHeader (examplePacket 7 5))) = Some b0'" "Missing b0' = 0"
    using fst flags preE [of "\<lambda>m. VMUCommonHeader.Origin (DataHeader m)
        \<noteq> VMUCommonHeader.Origin (DataHeader (examplePacket 7 5))"] by blast
  have bm: "Missing b0 = 0" "Missing b = - 1"
    using b b0' unfolding og iO by simp_all
  have bu: "Missing b = 18446744073709551615"
    using bm(2) by simp
  have w1: "\<exists>cz0 cz.
         runCount ByChannel False [Decoded (examplePacket 7 5) False] 1 = Some cz0
         \<and> runCount ByChannel False
               [Decoded (examplePacket 7 5) False, ErrSkip, Decoded (examplePacket 99 5) True,
                Decoded (examplePacket 10 6) False] 1 = Some cz
         \<and> Missing cz0 = 0 \<and> Missing cz = 2"
    using a(1,2) am unfolding ch by auto
  have w2: "\<exists>cz0 cz.
         runCount ByOrigin False [Decoded (examplePacket 7 5) False] 2 = Some cz0
         \<and> runCount ByOrigin False
               [Decoded (examplePacket 7 5) False, ErrSkip, Decoded (examplePacket 99 5) True,
                Decoded (examplePacket 7 6) False] 2 = Some cz
         \<and> Missing cz0 = 0 \<and> Missing cz = 18446744073709551615"
    using b(1,2) bm(1) bu unfolding og by auto
  show ?thesis
    using h1 h2 h3 h4 c1 c2 c3 c4 w1 w2 by blast
qed

section \<open>Properties of the checksum\<close>

lemma index_nat:
  "n < length body \<Longrightarrow> index body (int n) = Some (body ! n)"
  by (simp add: index_def)

lemma index_nat_add:
  "n + k < length body \<Longrightarrow> index body (int n + int k) = Some (body ! (n + k))"
  using index_nat [of "n + k" body] by simp

lemma quad_nat:
  assumes "n + 4 \<le> length body"
  shows "quad body (int n) = Some (\<Sum>k = n..<n + 4. ucast (body ! k))"
proof -
  have i: "index body (int n) = Some (body ! n)"
    "index body (int n + 1) = Some (body ! (n + 1))"
    "index body (int n + 2) = Some (body ! (n + 2))"
    "index body (int n + 3) = Some (body ! (n + 3))"
    using assms index_nat [of n body] index_nat_add [of n 1 body]
      index_nat_add [of n 2 body] index_nat_add [of n 3 body]
    by simp_all
  have s: "(\<Sum>k = n..<n + 4. (ucast (body ! k) :: uint32)) =
      ucast (body ! n) + ucast (body ! (n + 1)) + ucast (body ! (n + 2)) + ucast (body ! (n + 3))"
    by (simp add: eval_nat_numeral)
  show ?thesis
    unfolding quad_def i s by simp
qed

lemma block_nat:
  assumes "n + 16 \<le> length body"
  shows "block body (int n) sm = Some (sm + (\<Sum>k = n..<n + 16. ucast (body ! k)))"
proof -
  have q: "quad body (int n) = Some (\<Sum>k = n..<n + 4. ucast (body ! k))"
    "quad body (int n + 4) = Some (\<Sum>k = n + 4..<n + 8. ucast (body ! k))"
    "quad body (int n + 8) = Some (\<Sum>k = n + 8..<n + 12. ucast (body ! k))"
    "quad body (int n + 12) = Some (\<Sum>k = n + 12..<n + 16. ucast (body ! k))"
    using assms quad_nat [of n body] quad_nat [of "n + 4" body]
      quad_nat [of "n + 8" body] quad_nat [of "n + 12" body]
    by (simp_all add: add.assoc)
  have c: "(\<Sum>k = n..<n + 16. (ucast (body ! k) :: uint32)) =
      (\<Sum>k = n..<n + 4. ucast (body ! k)) + (\<Sum>k = n + 4..<n + 8. ucast (body ! k))
      + (\<Sum>k = n + 8..<n + 12. ucast (body ! k)) + (\<Sum>k = n + 12..<n + 16. ucast (body ! k))"
    by (simp add: sum.atLeastLessThan_concat)
  show ?thesis
    unfolding block_def q c by (simp add: add.assoc)
qed


lemma blockLoop_nat:
  "blockLoop body (int limit) (int n) sm =
     Some (sm + (\<Sum>k = n..<n + 16 * ((limit - n) div 16). ucast (body ! k)),
           int (n + 16 * ((limit - n) div 16)))"
  if "limit \<le> length body"
  using that
proof (induction "limit - n" arbitrary: n sm rule: less_induct)
  case less
  show ?case
  proof (cases "n + 16 \<le> limit")
    case True
    then have b: "block body (int n) sm = Some (sm + (\<Sum>k = n..<n + 16. ucast (body ! k)))"
      using less.prems by (intro block_nat) simp
    have d: "(limit - n) div 16 = Suc ((limit - (n + 16)) div 16)"
    proof -
      have "16 \<le> limit - n" using True by simp
      then have "(limit - n) div 16 = Suc ((limit - n - 16) div 16)"
        by (simp add: le_div_geq)
      then show ?thesis by (simp only: diff_diff_left)
    qed
    have ih: "blockLoop body (int limit) (int (n + 16)) (sm + (\<Sum>k = n..<n + 16. ucast (body ! k))) =
        Some (sm + (\<Sum>k = n..<n + 16. ucast (body ! k))
                + (\<Sum>k = n + 16..<n + 16 + 16 * ((limit - (n + 16)) div 16). ucast (body ! k)),
              int (n + 16 + 16 * ((limit - (n + 16)) div 16)))"
      using True less.prems by (intro less.hyps) simp_all
    have c: "(\<Sum>k = n..<n + 16 * ((limit - n) div 16). (ucast (body ! k) :: uint32)) =
        (\<Sum>k = n..<n + 16. ucast (body ! k))
        + (\<Sum>k = n + 16..<n + 16 + 16 * ((limit - (n + 16)) div 16). ucast (body ! k))"
    proof -
      have e: "n + 16 * Suc ((limit - (n + 16)) div 16) = n + 16 + 16 * ((limit - (n + 16)) div 16)"
        by simp
      show ?thesis
        unfolding d e by (rule sum.atLeastLessThan_concat [symmetric]) simp_all
    qed
    have g: "int n < int limit - 15"
      using True by simp
    have "blockLoop body (int limit) (int n) sm =
        blockLoop body (int limit) (int (n + 16)) (sm + (\<Sum>k = n..<n + 16. ucast (body ! k)))"
      by (subst blockLoop.simps) (simp add: g b blockSize_def)
    then show ?thesis
      unfolding ih c by (simp add: d add.assoc)
  next
    case False
    then have d: "(limit - n) div 16 = 0" by simp
    have g: "\<not> int n < int limit - 15"
      using False by simp
    show ?thesis
      by (subst blockLoop.simps) (simp add: g d blockSize_def)
  qed
qed

lemma scalarLoop_nat:
  "scalarLoop body (int limit) (int n) sm =
     Some (sm + (\<Sum>k = n..<limit. ucast (body ! k)), int limit)"
  if "limit \<le> length body" "n \<le> limit"
  using that
proof (induction "limit - n" arbitrary: n sm rule: less_induct)
  case less
  show ?case
  proof (cases "n < limit")
    case True
    then have i: "index body (int n) = Some (body ! n)"
      using less.prems by (intro index_nat) simp
    have ih: "scalarLoop body (int limit) (int (Suc n)) (sm + ucast (body ! n)) =
        Some (sm + ucast (body ! n) + (\<Sum>k = Suc n..<limit. ucast (body ! k)), int limit)"
      using True less.prems by (intro less.hyps) simp_all
    have c: "(\<Sum>k = n..<limit. (ucast (body ! k) :: uint32)) =
        ucast (body ! n) + (\<Sum>k = Suc n..<limit. ucast (body ! k))"
      using True by (simp add: sum.atLeast_Suc_lessThan)
    have "scalarLoop body (int limit) (int n) sm =
        scalarLoop body (int limit) (int (Suc n)) (sm + ucast (body ! n))"
      using True by (subst scalarLoop.simps) (simp add: i add.commute)
    then show ?thesis
      unfolding ih c by (simp add: add.assoc)
  next
    case False
    then have "n = limit" using less.prems by simp
    then show ?thesis
      by (subst scalarLoop.simps) simp
  qed
qed

lemma sum_nth_take:
  "n \<le> length xs \<Longrightarrow> (\<Sum>k = 0..<n. f (xs ! k)) = sum_list (map f (take n xs))"
  by (simp add: sum_list_sum_nth)

lemma unat_ucast_up:
  fixes x :: "'a::len word"
  assumes "LENGTH('a) \<le> LENGTH('b::len)"
  shows "unat (ucast x :: 'b word) = unat x"
proof -
  have "uint (ucast x :: 'b word) = uint x"
    using assms by (intro uint_up_ucast) (simp add: is_up)
  then show ?thesis by (metis unat_eq_nat_uint)
qed

lemma or_add_byte:
  fixes a :: byte and w :: uint32
  shows "ucast a OR push_bit 8 w = ucast a + push_bit 8 w"
proof -
  have "\<not> bit (ucast a :: uint32) n \<or> \<not> bit (push_bit 8 w) n" for n
    by (auto simp: bit_simps dest: bit_imp_le_length)
  then show ?thesis
    by (simp add: disjunctive_add)
qed

lemma le32_word:
  fixes a b c d :: byte
  shows "(ucast a OR push_bit 8 (ucast b) OR push_bit 16 (ucast c) OR push_bit 24 (ucast d) :: uint32)
     = ucast a + push_bit 8 (ucast b + push_bit 8 (ucast c + push_bit 8 (ucast d)))"
  by (simp only: or_add_byte [symmetric]) (simp add: push_bit_or push_bit_push_bit)

lemma unat_byte_shift:
  fixes a :: byte and w :: uint32
  assumes "unat w < 2 ^ 24"
  shows "unat (ucast a + push_bit 8 w) = unat a + 256 * unat w"
proof -
  have a: "unat (ucast a :: uint32) = unat a"
    by (rule unat_ucast_up) simp
  have "unat a < 256" using unsigned_less [of a, where ?'a = nat] by simp
  have m: "unat (w * 256) = unat w * 256"
    using assms by (subst unat_mult_lem [THEN iffD1]) simp_all
  have "unat (ucast a + w * 256) = unat (ucast a :: uint32) + unat (w * 256)"
    using assms \<open>unat a < 256\<close> by (subst unat_add_lem [THEN iffD1]) (simp_all add: a m)
  then show ?thesis
    by (simp add: a m push_bit_eq_mult)
qed

lemma le32_unat:
  fixes a b c d :: byte
  shows "unat (ucast a + push_bit 8 (ucast b + push_bit 8 (ucast c + push_bit 8 (ucast d))) :: uint32)
    = unat a + 256 * unat b + 65536 * unat c + 16777216 * unat d"
proof -
  have b: "unat x < 256" for x :: byte
    using unsigned_less [of x, where ?'a = nat] by simp
  have u3: "unat (ucast d :: uint32) = unat d"
    by (rule unat_ucast_up) simp
  have "unat (ucast d :: uint32) < 2 ^ 24"
    using b [of d] by (simp add: u3)
  then have u2: "unat (ucast c + push_bit 8 (ucast d) :: uint32) = unat c + 256 * unat d"
    by (simp only: unat_byte_shift u3)
  have "unat (ucast c + push_bit 8 (ucast d) :: uint32) < 2 ^ 24"
    using b [of c] b [of d] by (simp add: u2)
  then have u1: "unat (ucast b + push_bit 8 (ucast c + push_bit 8 (ucast d)) :: uint32)
      = unat b + 256 * (unat c + 256 * unat d)"
    by (simp only: unat_byte_shift u2)
  have "unat (ucast b + push_bit 8 (ucast c + push_bit 8 (ucast d)) :: uint32) < 2 ^ 24"
    using b [of b] b [of c] b [of d] by (simp add: u1)
  then have "unat (ucast a + push_bit 8 (ucast b + push_bit 8 (ucast c + push_bit 8 (ucast d))) :: uint32)
      = unat a + 256 * (unat b + 256 * (unat c + 256 * unat d))"
    by (simp only: unat_byte_shift u1)
  then show ?thesis by simp
qed

lemma LittleEndian_Uint32_value:
  assumes "length t = 4"
  shows "\<exists>e. LittleEndian_Uint32 t = Some e \<and>
     unat e = unat (t ! 0) + 256 * unat (t ! 1) + 65536 * unat (t ! 2) + 16777216 * unat (t ! 3)"
proof -
  have "LittleEndian_Uint32 t = Some (ucast (t ! 0) + push_bit 8 (ucast (t ! 1)
      + push_bit 8 (ucast (t ! 2) + push_bit 8 (ucast (t ! 3)))))"
    using assms by (simp only: LittleEndian_Uint32_def le32_word) simp
  then show ?thesis
    using le32_unat [of "t ! 0" "t ! 1" "t ! 2" "t ! 3"] by simp
qed

lemma unat_sum_list_ucast:
  "unat (sum_list (map ucast xs) :: uint32) = sum_list (map unat (xs :: byte list)) mod 2 ^ 32"
proof (induction xs)
  case Nil
  show ?case by simp
next
  case (Cons x xs)
  have u: "unat (ucast x :: uint32) = unat x"
    by (rule unat_ucast_up) simp
  have "unat (ucast x + sum_list (map ucast xs) :: uint32)
      = (unat x + sum_list (map unat xs) mod 2 ^ 32) mod 2 ^ 32"
    by (simp add: unat_word_ariths u Cons.IH)
  then show ?case
    by (simp add: mod_add_right_eq)
qed

lemma calculateSum_loops:
  assumes "4 \<le> length body"
  shows "blockLoop body (int (length body) - 4) 0 0 =
       Some (sum_list (map ucast (take (16 * ((length body - 4) div 16)) body)),
             int (16 * ((length body - 4) div 16)))"
    and "scalarLoop body (int (length body) - 4) (int (16 * ((length body - 4) div 16)))
         (sum_list (map ucast (take (16 * ((length body - 4) div 16)) body))) =
       Some (sum_list (map ucast (take (length body - 4) body)), int (length body) - 4)"
proof -
  let ?limit = "length body - 4"
  let ?m = "16 * (?limit div 16)"
  have l: "int (length body) - 4 = int ?limit" using assms by simp
  have le: "?limit \<le> length body" "?m \<le> ?limit" by simp_all
  have "blockLoop body (int ?limit) (int 0) 0 =
      Some (0 + (\<Sum>k = 0..<0 + 16 * ((?limit - 0) div 16). ucast (body ! k)),
            int (0 + 16 * ((?limit - 0) div 16)))"
    by (rule blockLoop_nat) simp
  then show "blockLoop body (int (length body) - 4) 0 0 =
       Some (sum_list (map ucast (take ?m body)), int ?m)"
    unfolding l using le by (simp add: sum_nth_take)
  have "scalarLoop body (int ?limit) (int ?m) (sum_list (map ucast (take ?m body))) =
      Some (sum_list (map ucast (take ?m body)) + (\<Sum>k = ?m..<?limit. ucast (body ! k)), int ?limit)"
    by (rule scalarLoop_nat) simp_all
  moreover have "(sum_list (map ucast (take ?m body)) :: uint32) + (\<Sum>k = ?m..<?limit. ucast (body ! k))
      = sum_list (map ucast (take ?limit body))"
  proof -
    have "(\<Sum>k = 0..<?m. (ucast (body ! k) :: uint32)) + (\<Sum>k = ?m..<?limit. ucast (body ! k))
        = (\<Sum>k = 0..<?limit. ucast (body ! k))"
      by (rule sum.atLeastLessThan_concat) simp_all
    then show ?thesis
      using le by (simp add: sum_nth_take)
  qed
  ultimately show "scalarLoop body (int (length body) - 4) (int ?m)
         (sum_list (map ucast (take ?m body))) =
       Some (sum_list (map ucast (take ?limit body)), int (length body) - 4)"
    unfolding l by simp
qed

lemma invalid_neq_unknown: "invalid \<noteq> unknown"
  by (simp add: invalid_def unknown_def)

text \<open>
  Claim C2. For a body of at least 4 bytes \<open>calculateSum\<close> returns (it does not
  panic) the sum modulo 2^32 of the unsigned values of all bytes but the last 4. The block
  loop adds the bytes in blocks of 16 and stops at the last multiple of 16 within that
  range; the scalar loop adds the remaining bytes, fewer than 16. The marker returned with
  the sum is either the validity marker or the invalidity marker, and it is the validity
  marker exactly when the sum equals the little-endian 32-bit integer in the last 4
  bytes.
\<close>

theorem calculateSum_sums_body:
  "4 \<le> length body \<Longrightarrow>
   (\<exists>s marker s16.
      calculateSum body = Some (s, marker)
      \<and> s = sum_list (map ucast (take (length body - 4) body))
      \<and> unat s = sum_list (map unat (take (length body - 4) body)) mod 2 ^ 32
      \<and> blockLoop body (int (length body) - 4) 0 0 =
            Some (s16, int (16 * ((length body - 4) div 16)))
      \<and> s16 = sum_list (map ucast (take (16 * ((length body - 4) div 16)) body))
      \<and> scalarLoop body (int (length body) - 4) (int (16 * ((length body - 4) div 16))) s16 =
            Some (s, int (length body) - 4)
      \<and> (length body - 4) - 16 * ((length body - 4) div 16) < 16
      \<and> (marker = unknown \<or> marker = invalid)
      \<and> (marker = unknown \<longleftrightarrow>
            unat s = unat (body ! (length body - 4)) + 256 * unat (body ! (length body - 3))
                     + 65536 * unat (body ! (length body - 2))
                     + 16777216 * unat (body ! (length body - 1))))"
proof -
  assume len: "4 \<le> length body"
  let ?limit = "length body - 4"
  let ?s = "sum_list (map ucast (take ?limit body)) :: uint32"
  let ?s16 = "sum_list (map ucast (take (16 * (?limit div 16)) body)) :: uint32"
  note loops = calculateSum_loops [OF len]
  have t: "slice_from body (int (length body) - 4) = Some (drop ?limit body)"
    using len by (simp add: slice_from_def nat_diff_distrib)
  have tl: "length (drop ?limit body) = 4" using len by simp
  obtain e where e: "LittleEndian_Uint32 (drop ?limit body) = Some e"
    and ev: "unat e = unat (drop ?limit body ! 0) + 256 * unat (drop ?limit body ! 1)
              + 65536 * unat (drop ?limit body ! 2) + 16777216 * unat (drop ?limit body ! 3)"
    using LittleEndian_Uint32_value [OF tl] by blast
  have ix: "?limit + 0 = length body - 4" "?limit + 1 = length body - 3"
    "?limit + 2 = length body - 2" "?limit + 3 = length body - 1"
    using len by arith+
  have nth: "drop ?limit body ! 0 = body ! (length body - 4)"
    "drop ?limit body ! 1 = body ! (length body - 3)"
    "drop ?limit body ! 2 = body ! (length body - 2)"
    "drop ?limit body ! 3 = body ! (length body - 1)"
    using len by (simp_all only: nth_drop diff_le_self ix)
  have c: "calculateSum body = Some (?s, if e \<noteq> ?s then invalid else unknown)"
    by (simp only: calculateSum_def Let_def loops t e Option.bind.simps prod.case)
  have r: "?limit - 16 * (?limit div 16) < 16"
    by (simp add: minus_mult_div_eq_mod)
  have v: "((if e \<noteq> ?s then invalid else unknown) = unknown) \<longleftrightarrow>
      unat ?s = unat (body ! (length body - 4)) + 256 * unat (body ! (length body - 3))
                + 65536 * unat (body ! (length body - 2))
                + 16777216 * unat (body ! (length body - 1))"
    using ev invalid_neq_unknown unfolding nth
    by (auto simp: word_unat_eq_iff)
  have m: "(if e \<noteq> ?s then invalid else unknown) = unknown
      \<or> (if e \<noteq> ?s then invalid else unknown) = invalid"
    by simp
  show ?thesis
    using c loops r v m unat_sum_list_ucast [of "take ?limit body"]
    by blast
qed


theorem calculateSum_sums_body_witness:
  "4 \<le> length ([1, 2, 3, 4, 5, 6, 7, 8, 9, 10, 11, 12, 13, 14, 15, 16, 17, 18, 171, 0, 0, 0] :: byte list)
   \<and> calculateSum [1, 2, 3, 4, 5, 6, 7, 8, 9, 10, 11, 12, 13, 14, 15, 16, 17, 18, 171, 0, 0, 0] = Some (171, unknown)"
proof -
  let ?B = "[1, 2, 3, 4, 5, 6, 7, 8, 9, 10, 11, 12, 13, 14, 15, 16, 17, 18, 171, 0, 0, 0] :: byte list"
  have len: "4 \<le> length ?B" by simp
  obtain s marker where c: "calculateSum ?B = Some (s, marker)"
    and s: "s = sum_list (map ucast (take (length ?B - 4) ?B))"
    and m: "marker = unknown \<longleftrightarrow>
            unat s = unat (?B ! (length ?B - 4)) + 256 * unat (?B ! (length ?B - 3))
                     + 65536 * unat (?B ! (length ?B - 2))
                     + 16777216 * unat (?B ! (length ?B - 1))"
    using calculateSum_sums_body [OF len] by blast
  have s': "s = 171" unfolding s by simp
  have "marker = unknown" unfolding m s' by simp
  then show ?thesis using c s' len by simp
qed

section \<open>Properties of the user information\<close>

lemma shouldKeepRune_byte:
  fixes b :: byte
  shows "shouldKeepRune (uint b) =
     (if unicode_IsLetter (uint b) \<or> unicode_IsDigit (uint b) \<or> b = 45 \<or> b = 95
      then (True, False) else (False, True))"
proof -
  have e: "uint b = 45 \<longleftrightarrow> b = 45" "uint b = 95 \<longleftrightarrow> b = 95"
    by (simp_all add: word_uint_eq_iff)
  have z: "uint b = 0 \<Longrightarrow> \<not> (unicode_IsLetter (uint b) \<or> unicode_IsDigit (uint b) \<or> b = 45 \<or> b = 95)"
    by (auto simp: unicode_IsLetter_def unicode_IsDigit_def)
  show ?thesis
    using z by (auto simp: shouldKeepRune_def e)
qed

lemma userInfo_loop_takeWhile:
  fixes P :: "byte \<Rightarrow> bool"
  defines "P \<equiv> \<lambda>b. unicode_IsLetter (uint b) \<or> unicode_IsDigit (uint b) \<or> b = 45 \<or> b = 95"
  assumes "length upi = 32" "length buf = 32" "i \<le> 32"
  shows "\<exists>buf'. userInfo_loop upi buf i i =
             Some (i + length (takeWhile P (drop i upi)), buf')
           \<and> length buf' = 32
           \<and> take (i + length (takeWhile P (drop i upi))) buf' =
               take i buf @ takeWhile P (drop i upi)"
  using assms(2-)
proof (induction "32 - i" arbitrary: i buf rule: less_induct)
  case less
  show ?case
  proof (cases "i < 32")
    case False
    then have "i = 32" using less.prems by simp
    then show ?thesis
      using less.prems by (subst userInfo_loop.simps) (simp add: UPILen_def)
  next
    case True
    let ?b = "upi ! i"
    have ix: "index upi (int i) = Some ?b"
      using True less.prems by (simp add: index_def)
    have d: "drop i upi = ?b # drop (Suc i) upi"
      using True less.prems by (simp add: Cons_nth_drop_Suc)
    show ?thesis
    proof (cases "P ?b")
      case False
      then have k: "shouldKeepRune (uint ?b) = (False, True)"
        by (simp add: shouldKeepRune_byte P_def)
      have "userInfo_loop upi buf i i = Some (i, buf)"
        using True by (subst userInfo_loop.simps) (simp add: UPILen_def ix k)
      then show ?thesis
        using False less.prems by (simp add: d)
    next
      case Pb: True
      then have k: "shouldKeepRune (uint ?b) = (True, False)"
        by (simp add: shouldKeepRune_byte P_def)
      have r: "userInfo_loop upi buf i i = userInfo_loop upi (buf[i := ?b]) (Suc i) (Suc i)"
        using True less.prems by (subst userInfo_loop.simps) (simp add: UPILen_def ix k)
      have "\<exists>buf'. userInfo_loop upi (buf[i := ?b]) (Suc i) (Suc i) =
             Some (Suc i + length (takeWhile P (drop (Suc i) upi)), buf')
           \<and> length buf' = 32
           \<and> take (Suc i + length (takeWhile P (drop (Suc i) upi))) buf' =
               take (Suc i) (buf[i := ?b]) @ takeWhile P (drop (Suc i) upi)"
        using True less.prems by (intro less.hyps) simp_all
      then obtain buf' where ih: "userInfo_loop upi (buf[i := ?b]) (Suc i) (Suc i) =
             Some (Suc i + length (takeWhile P (drop (Suc i) upi)), buf')"
          "length buf' = 32"
          "take (Suc i + length (takeWhile P (drop (Suc i) upi))) buf' =
               take (Suc i) (buf[i := ?b]) @ takeWhile P (drop (Suc i) upi)"
        by blast
      have t: "take (Suc i) (buf[i := ?b]) = take i buf @ [?b]"
        using True less.prems by (simp add: take_Suc_conv_app_nth)
      show ?thesis
        using Pb ih by (simp add: r d t)
    qed
  qed
qed

text \<open>
  Claim C9. For a 32-byte UPI array (and the 32-byte package buffer) \<open>userInfo\<close>
  returns exactly the longest prefix of the array made only of bytes that are letters,
  digits, \<open>-\<close> or \<open>_\<close>: the result is a prefix of the array, all its bytes are
  allowed, and when it is shorter than the array the byte that follows it is not
  allowed (the NUL byte is not); nothing after that byte is included.
\<close>

theorem userInfo_allowed_prefix:
  "length upi = 32 \<Longrightarrow> length upiBuffer = 32 \<Longrightarrow>
   (\<exists>r buf'.
      userInfo upi upiBuffer = Some (r, buf')
      \<and> r = takeWhile (\<lambda>b. unicode_IsLetter (uint b) \<or> unicode_IsDigit (uint b)
                             \<or> b = 45 \<or> b = 95) upi
      \<and> r = take (length r) upi
      \<and> (\<forall>b \<in> set r. unicode_IsLetter (uint b) \<or> unicode_IsDigit (uint b)
                          \<or> b = 45 \<or> b = 95)
      \<and> (length r < 32 \<longrightarrow>
            \<not> (unicode_IsLetter (uint (upi ! length r)) \<or> unicode_IsDigit (uint (upi ! length r))
               \<or> upi ! length r = 45 \<or> upi ! length r = 95)))"
proof -
  assume len: "length upi = 32" "length upiBuffer = 32"
  let ?P = "\<lambda>b :: byte. unicode_IsLetter (uint b) \<or> unicode_IsDigit (uint b) \<or> b = 45 \<or> b = 95"
  let ?r = "takeWhile ?P upi"
  obtain buf' where l: "userInfo_loop upi upiBuffer 0 0 = Some (0 + length (takeWhile ?P (drop 0 upi)), buf')"
    and t: "take (0 + length (takeWhile ?P (drop 0 upi))) buf' = take 0 upiBuffer @ takeWhile ?P (drop 0 upi)"
    using userInfo_loop_takeWhile [OF len, of 0] by blast
  have u: "userInfo upi upiBuffer = Some (?r, buf')"
    using l t by (simp add: userInfo_def)
  have p: "?r = take (length ?r) upi"
    by (rule takeWhile_eq_take)
  have a: "\<forall>b \<in> set ?r. ?P b"
    using set_takeWhileD by fastforce
  have n: "length ?r < 32 \<longrightarrow> \<not> ?P (upi ! length ?r)"
    using nth_length_takeWhile [of ?P upi] len by simp
  show ?thesis
    using u p a n by blast
qed

theorem userInfo_allowed_prefix_witness:
  "length ([65, 66, 45, 49, 95, 0, 90, 0, 0, 0, 0, 0, 0, 0, 0, 0, 0, 0, 0, 0, 0, 0, 0, 0, 0, 0, 0, 0, 0, 0, 0, 0] :: byte list) = 32
   \<and> length (replicate 32 0 :: byte list) = 32
   \<and> (\<exists>buf'. userInfo [65, 66, 45, 49, 95, 0, 90, 0, 0, 0, 0, 0, 0, 0, 0, 0, 0, 0, 0, 0, 0, 0, 0, 0, 0, 0, 0, 0, 0, 0, 0, 0] (replicate 32 0) = Some ([65, 66, 45, 49, 95], buf'))"
proof -
  let ?U = "[65, 66, 45, 49, 95, 0, 90, 0, 0, 0, 0, 0, 0, 0, 0, 0, 0, 0, 0, 0, 0, 0, 0, 0, 0, 0, 0, 0, 0, 0, 0, 0] :: byte list"
  have len: "length ?U = 32" "length (replicate 32 0 :: byte list) = 32" by simp_all
  obtain r buf' where u: "userInfo ?U (replicate 32 0) = Some (r, buf')"
    and r: "r = takeWhile (\<lambda>b. unicode_IsLetter (uint b) \<or> unicode_IsDigit (uint b)
                             \<or> b = 45 \<or> b = 95) ?U"
    using userInfo_allowed_prefix [OF len] by blast
  have "r = [65, 66, 45, 49, 95]"
    unfolding r by (simp add: unicode_IsLetter_def unicode_IsDigit_def)
  then show ?thesis using u len by blast
qed

section \<open>Properties of the header decoders\<close>

lemma LittleEndian_Uint16_Some: "2 \<le> length b \<Longrightarrow> \<exists>x. LittleEndian_Uint16 b = Some x"
  by (simp add: LittleEndian_Uint16_def)

lemma BigEndian_Uint16_Some: "2 \<le> length b \<Longrightarrow> \<exists>x. BigEndian_Uint16 b = Some x"
  by (simp add: BigEndian_Uint16_def)

lemma LittleEndian_Uint32_Some: "4 \<le> length b \<Longrightarrow> \<exists>x. LittleEndian_Uint32 b = Some x"
  by (simp add: LittleEndian_Uint32_def)

lemma BigEndian_Uint32_Some: "4 \<le> length b \<Longrightarrow> \<exists>x. BigEndian_Uint32 b = Some x"
  by (simp add: BigEndian_Uint32_def)



lemma decodeCommon_short:
  assumes "length body < 24"
  shows "decodeCommon body = None"
proof -
  have "index body 23 = None" using assms by (simp add: index_def)
  then show ?thesis
    by (simp add: decodeCommon_def Option.bind_eq_None_conv)
qed


lemma copyUPI_full: "32 \<le> length src \<Longrightarrow> copyUPI src = take 32 src"
  by (simp add: copyUPI_def UPILen_def)







section \<open>Short buffers\<close>

lemma decodeHRDL_long:
  assumes "18 \<le> length body"
  shows "\<exists>h. decodeHRDL body = Some (h, None)"
proof -
  have i: "index body 6 = Some (body ! 6)" "index body 7 = Some (body ! 7)"
    "index body 12 = Some (body ! 12)" "index body 17 = Some (body ! 17)"
    using assms by (auto simp: index_def)
  have s: "slice_from body 4 = Some (drop 4 body)" "slice_from body 8 = Some (drop 8 body)"
    "slice_from body 13 = Some (drop 13 body)"
    using assms by (simp_all add: slice_from_def)
  have "4 \<le> length body" using assms by simp
  from LittleEndian_Uint32_Some [OF this] obtain sz where sz: "LittleEndian_Uint32 body = Some sz" ..
  have "2 \<le> length (drop 4 body)" using assms by simp
  from BigEndian_Uint16_Some [OF this] obtain er where er: "BigEndian_Uint16 (drop 4 body) = Some er" ..
  have "4 \<le> length (drop 8 body)" using assms by simp
  from BigEndian_Uint32_Some [OF this] obtain pc where pc: "BigEndian_Uint32 (drop 8 body) = Some pc" ..
  have "4 \<le> length (drop 13 body)" using assms by simp
  from BigEndian_Uint32_Some [OF this] obtain hc where hc: "BigEndian_Uint32 (drop 13 body) = Some hc" ..
  show ?thesis
    by (simp add: decodeHRDL_def i s sz er pc hc)
qed

lemma decodeVMU_long:
  assumes "22 \<le> length body"
  shows "\<exists>v. decodeVMU body = Some (v, None)"
proof -
  have i: "index body 8 = Some (body ! 8)" "index body 9 = Some (body ! 9)"
    using assms by (auto simp: index_def)
  have s: "slice_from body 4 = Some (drop 4 body)" "slice_from body 12 = Some (drop 12 body)"
    "slice_from body 16 = Some (drop 16 body)" "slice_from body 20 = Some (drop 20 body)"
    using assms by (simp_all add: slice_from_def)
  have "4 \<le> length (drop 4 body)" using assms by simp
  from LittleEndian_Uint32_Some [OF this] obtain sz where sz: "LittleEndian_Uint32 (drop 4 body) = Some sz" ..
  have "4 \<le> length (drop 12 body)" using assms by simp
  from LittleEndian_Uint32_Some [OF this] obtain sq where sq: "LittleEndian_Uint32 (drop 12 body) = Some sq" ..
  have "4 \<le> length (drop 16 body)" using assms by simp
  from LittleEndian_Uint32_Some [OF this] obtain co where co: "LittleEndian_Uint32 (drop 16 body) = Some co" ..
  have "2 \<le> length (drop 20 body)" using assms by simp
  from LittleEndian_Uint16_Some [OF this] obtain fi where fi: "LittleEndian_Uint16 (drop 20 body) = Some fi" ..
  show ?thesis
    by (simp add: decodeVMU_def i s sz sq co fi)
qed

lemma decodeHRDL_short:
  assumes "length body < 18"
  shows "decodeHRDL body = None"
proof -
  have "index body 17 = None" using assms by (simp add: index_def)
  then show ?thesis
    by (simp add: decodeHRDL_def Option.bind_eq_None_conv)
qed

lemma decodeVMU_short:
  assumes "length body < 22"
  shows "decodeVMU body = None"
proof (cases "20 \<le> length body")
  case True
  then have s: "slice_from body 20 = Some (drop 20 body)"
    by (simp add: slice_from_def)
  have "LittleEndian_Uint16 (drop 20 body) = None"
    using assms by (simp add: LittleEndian_Uint16_def)
  then show ?thesis
    by (simp add: decodeVMU_def s Option.bind_eq_None_conv)
next
  case False
  then have "slice_from body 20 = None"
    by (simp add: slice_from_def)
  then show ?thesis
    by (simp add: decodeVMU_def Option.bind_eq_None_conv)
qed

lemma decodeHRDL_nil_error: "decodeHRDL body = Some (h, e) \<Longrightarrow> e = None"
  by (auto simp: decodeHRDL_def Option.bind_eq_Some_conv)

lemma decodeVMU_nil_error: "decodeVMU body = Some (v, e) \<Longrightarrow> e = None"
  by (auto simp: decodeVMU_def Option.bind_eq_Some_conv)

text \<open>
  Claim C5, as stated, fails: on a 17-byte slice \<open>decodeHRDL\<close> panics (index out of
  range) instead of returning an error, and on a 23-byte slice \<open>decodeVMU\<close> returns a
  header and a nil error.
\<close>

theorem header_decode_short_counterexample:
  "length (replicate 17 0 :: byte list) < HRDLHeaderLen
   \<and> decodeHRDL (replicate 17 0) = None
   \<and> length (replicate 23 0 :: byte list) < VMUHeaderLen
   \<and> decodeVMU (replicate 23 0) =
       Some (\<lparr>VMUHeader.Size = 0, VMUHeader.Channel = 0, VMUHeader.Origin = 0,
              Sequence = 0, Coarse = 0, Fine = 0\<rparr>, None)"
proof -
  have a: "decodeHRDL (replicate 17 0) = None"
    by (rule decodeHRDL_short) simp
  have b: "decodeVMU (replicate 23 0) =
       Some (\<lparr>VMUHeader.Size = 0, VMUHeader.Channel = 0, VMUHeader.Origin = 0,
              Sequence = 0, Coarse = 0, Fine = 0\<rparr>, None)"
    by (simp add: decodeVMU_def index_def slice_from_def LittleEndian_Uint32_def
        LittleEndian_Uint16_def)
  show ?thesis
    using a b by (simp add: HRDLHeaderLen_def VMUHeaderLen_def)
qed

text \<open>
  Claim C5, amended. The length check is made once, by \<open>dumpPacket\<close>: for every
  packet slice shorter than the 42 bytes of the two headers (18 for HRDL, 24 for VMU) it
  returns, without decoding anything, size 0 and a \<open>shortError\<close> whose wanted length is
  0 and whose actual length is the length of the slice. \<open>decodeHRDL\<close> and
  \<open>decodeVMU\<close> check no length: whenever they return, their error is nil, and on the
  18-byte and 24-byte slices that \<open>dumpPacket\<close> cuts for them from a longer packet
  they return a header.
\<close>

theorem dumpPacket_short_buffer:
  "(length body < 42 \<longrightarrow>
      dumpPacket body digest withErr = Some (0, Some (shortError 0 (int (length body)))))
   \<and> (42 \<le> length body \<longrightarrow>
        slice body 0 (int HRDLHeaderLen) = Some (take 18 body)
        \<and> slice body (int HRDLHeaderLen) (int (HRDLHeaderLen + VMUHeaderLen)) =
            Some (take 24 (drop 18 body))
        \<and> (\<exists>h v. decodeHRDL (take 18 body) = Some (h, None)
                 \<and> decodeVMU (take 24 (drop 18 body)) = Some (v, None)))
   \<and> (\<forall>h e. decodeHRDL body = Some (h, e) \<longrightarrow> e = None)
   \<and> (\<forall>v e. decodeVMU body = Some (v, e) \<longrightarrow> e = None)"
proof -
  have a: "length body < 42 \<longrightarrow>
      dumpPacket body digest withErr = Some (0, Some (shortError 0 (int (length body))))"
    by (simp add: dumpPacket_def HRDLHeaderLen_def VMUHeaderLen_def NotEnoughByte_def)
  have b: "slice body 0 (int HRDLHeaderLen) = Some (take 18 body)
        \<and> slice body (int HRDLHeaderLen) (int (HRDLHeaderLen + VMUHeaderLen)) =
            Some (take 24 (drop 18 body))
        \<and> (\<exists>h v. decodeHRDL (take 18 body) = Some (h, None)
                 \<and> decodeVMU (take 24 (drop 18 body)) = Some (v, None))"
    if l: "42 \<le> length body"
  proof -
    have "18 \<le> length (take 18 body)" using l by simp
    from decodeHRDL_long [OF this] obtain h where h: "decodeHRDL (take 18 body) = Some (h, None)" ..
    have "22 \<le> length (take 24 (drop 18 body))" using l by simp
    from decodeVMU_long [OF this] obtain v where v: "decodeVMU (take 24 (drop 18 body)) = Some (v, None)" ..
    have s: "slice body 0 (int HRDLHeaderLen) = Some (take 18 body)"
      "slice body (int HRDLHeaderLen) (int (HRDLHeaderLen + VMUHeaderLen)) =
            Some (take 24 (drop 18 body))"
      using l by (simp_all add: slice_def HRDLHeaderLen_def VMUHeaderLen_def)
    show ?thesis using h v s by blast
  qed
  show ?thesis
    using a b decodeHRDL_nil_error decodeVMU_nil_error by blast
qed

theorem dumpPacket_short_buffer_witness:
  "length (replicate 41 0 :: byte list) < 42
   \<and> dumpPacket (replicate 41 0) 0 False = Some (0, Some (shortError 0 41))
   \<and> 42 \<le> length (replicate 42 0 :: byte list)
   \<and> (\<exists>h v. decodeHRDL (take 18 (replicate 42 0)) = Some (h, None)
            \<and> decodeVMU (take 24 (drop 18 (replicate 42 0))) = Some (v, None))
   \<and> decodeHRDL (replicate 18 0) =
       Some (\<lparr>HRDLHeader.Size = 0, HRDLHeader.Error = 0, HRDLHeader.Channel = 0,
              Payload = 0, PacketCoarse = 0, PacketFine = 0,
              HRDPCoarse = 0, HRDPFine = 0\<rparr>, None)"
proof -
  have h: "length (replicate 41 0 :: byte list) < 42" "42 \<le> length (replicate 42 0 :: byte list)"
    by simp_all
  have d: "decodeHRDL (replicate 18 0) =
       Some (\<lparr>HRDLHeader.Size = 0, HRDLHeader.Error = 0, HRDLHeader.Channel = 0,
              Payload = 0, PacketCoarse = 0, PacketFine = 0,
              HRDPCoarse = 0, HRDPFine = 0\<rparr>, None)"
    by (simp add: decodeHRDL_def index_def slice_from_def LittleEndian_Uint32_def
        BigEndian_Uint32_def BigEndian_Uint16_def)
  have a: "dumpPacket (replicate 41 0) 0 False = Some (0, Some (shortError 0 41))"
    using dumpPacket_short_buffer [of "replicate 41 0" 0 False] h(1) by simp
  have b: "\<exists>h v. decodeHRDL (take 18 (replicate 42 0)) = Some (h, None)
            \<and> decodeVMU (take 24 (drop 18 (replicate 42 0))) = Some (v, None)"
    using dumpPacket_short_buffer [of "replicate 42 0" 0 False] h(2) by blast
  show ?thesis
    using h a b d by blast
qed

section \<open>Properties of the archive walker\<close>

lemma send_all_eq:
  "send_all q xs =
     (q\<lparr>sent := sent q @ received (demand q) xs, demand := demand_after (demand q) xs\<rparr>,
      receives_all (demand q) xs)"
proof (induction xs arbitrary: q)
  case Nil
  show ?case
    by (cases "demand q") (simp_all add: received_def demand_after_def receives_all_def)
next
  case (Cons x xs)
  show ?case
  proof (cases "demand q")
    case None
    then show ?thesis
      by (simp add: send_def Cons.IH received_def demand_after_def receives_all_def)
  next
    case (Some n)
    show ?thesis
    proof (cases n)
      case 0
      then show ?thesis using Some
        by (simp add: send_def received_def demand_after_def receives_all_def)
    next
      case (Suc m)
      then show ?thesis using Some
        by (simp add: send_def Cons.IH received_def demand_after_def receives_all_def)
    qed
  qed
qed

lemma outcome_Nil: "outcome rd [] q = (q, NoError)"
  by (cases "demand q")
     (simp_all add: outcome_def attempted_def received_def demand_after_def receives_all_def)

lemma outcome_failure: "outcome rd [None] q = (q, AnError)"
  by (cases "demand q")
     (simp_all add: outcome_def attempted_def received_def demand_after_def receives_all_def)

lemma outcome_file:
  "outcome rd [Some c] q =
     (case send_all q (rd c) of (q', True) \<Rightarrow> (q', NoError) | (q', False) \<Rightarrow> (q', Blocked))"
  by (simp add: send_all_eq outcome_def attempted_def)

lemma attempted_append:
  "attempted rd (vs @ ws) =
     (if None \<in> set vs then attempted rd vs else attempted rd vs @ attempted rd ws)"
proof (cases "None \<in> set vs")
  case True
  then have "takeWhile (\<lambda>v. v \<noteq> None) (vs @ ws) = takeWhile (\<lambda>v. v \<noteq> None) vs"
    by (intro takeWhile_append1 [of None]) simp_all
  then show ?thesis using True unfolding attempted_def by simp
next
  case False
  then have n: "x \<in> set vs \<Longrightarrow> x \<noteq> None" for x
    by metis
  have a: "takeWhile (\<lambda>v. v \<noteq> None) (vs @ ws) = vs @ takeWhile (\<lambda>v. v \<noteq> None) ws"
    using n by (intro takeWhile_append2) blast
  have b: "takeWhile (\<lambda>v. v \<noteq> None) vs = vs"
    using n by (intro takeWhile_eq_all_conv [THEN iffD2]) blast
  show ?thesis using False unfolding attempted_def a b by simp
qed

lemma outcome_append:
  "outcome rd (vs @ ws) q =
     (case outcome rd vs q of
        (q', NoError) \<Rightarrow> outcome rd ws q'
      | (q', AnError) \<Rightarrow> (q', AnError)
      | (q', Blocked) \<Rightarrow> (q', Blocked))"
proof (cases "None \<in> set vs")
  case True
  then show ?thesis
    by (simp add: outcome_def attempted_append)
next
  case False
  show ?thesis
  proof (cases "demand q")
    case None
    then show ?thesis using False
      by (simp add: outcome_def attempted_append received_def demand_after_def receives_all_def)
  next
    case (Some n)
    show ?thesis
    proof (cases "length (attempted rd vs) \<le> n")
      case True
      then show ?thesis using False Some
        by (auto simp: outcome_def attempted_append received_def demand_after_def receives_all_def)
    next
      case l: False
      then show ?thesis using False Some
        by (simp add: outcome_def attempted_append received_def demand_after_def receives_all_def)
    qed
  qed
qed

lemma filepath_walk_names_outcome:
  assumes "\<And>n q. n \<in> set ns \<Longrightarrow> filepath_walk fn n q = outcome rd (visits n) q"
  shows "filepath_walk_names fn ns q = outcome rd (concat (map visits ns)) q"
  using assms
proof (induction ns arbitrary: q)
  case Nil
  show ?case by (simp add: outcome_Nil)
next
  case (Cons n ns)
  have h: "filepath_walk fn n q = outcome rd (visits n) q"
    using Cons.prems by simp
  have t: "filepath_walk_names fn ns q' = outcome rd (concat (map visits ns)) q'" for q'
    using Cons.prems by (intro Cons.IH) simp
  show ?case
    by (simp add: h t outcome_append [of rd "visits n"])
qed

lemma filepath_walk_outcome:
  "filepath_walk (walkFn rd) n q = outcome rd (visits n) q"
proof (induction n arbitrary: q)
  case Unreadable
  show ?case by (simp add: walkFn_def outcome_failure)
next
  case (File f)
  show ?case
  proof (cases f)
    case None
    then show ?thesis by (simp add: walkFn_def outcome_failure)
  next
    case (Some c)
    then show ?thesis by (simp add: walkFn_def outcome_file)
  qed
next
  case DirUnreadable
  show ?case by (simp add: walkFn_def outcome_failure)
next
  case (Dir ns)
  have "filepath_walk_names (walkFn rd) ns q = outcome rd (concat (map visits ns)) q"
    using Dir.IH by (intro filepath_walk_names_outcome) simp
  moreover have "walkFn rd (Dir ns) False q = (q, NoError)"
    by (simp add: walkFn_def)
  ultimately show ?case by simp
qed

lemma Walk_loop_outcome:
  "Walk_loop fs rd ps q = outcome rd (concat (map (\<lambda>p. visits (fs p)) ps)) q"
proof (induction ps arbitrary: q)
  case Nil
  show ?case by (simp add: outcome_Nil)
next
  case (Cons p ps)
  show ?case
    by (simp add: walk_def filepath_Walk_def filepath_walk_outcome Cons.IH
        outcome_append [of rd "visits (fs p)"])
qed

lemma Walk_outcome:
  "Walk fs packets paths (Some dec) recv =
     \<lparr>sent = received recv (attempted (packets dec)
               (concat (map (\<lambda>p. visits (fs p)) (sort paths)))),
      demand = demand_after recv (attempted (packets dec)
               (concat (map (\<lambda>p. visits (fs p)) (sort paths)))),
      closed = receives_all recv (attempted (packets dec)
               (concat (map (\<lambda>p. visits (fs p)) (sort paths))))\<rparr>"
  by (simp add: Walk_def Walk_loop_outcome outcome_def)

lemma visits_readable:
  "readable n \<Longrightarrow> None \<notin> set (visits n) \<and> attempted rd (visits n) = contents rd n"
proof (induction n)
  case Unreadable
  then show ?case by simp
next
  case (File f)
  then show ?case by (cases f) (simp_all add: attempted_def)
next
  case DirUnreadable
  then show ?case by simp
next
  case (Dir ns)
  then have "\<forall>n \<in> set ns. None \<notin> set (visits n) \<and> attempted rd (visits n) = contents rd n"
    by (simp add: list_all_iff)
  then have "None \<notin> set (concat (map visits ns))
      \<and> attempted rd (concat (map visits ns)) = concat (map (contents rd) ns)"
  proof (induction ns)
    case Nil
    show ?case by (simp add: attempted_def)
  next
    case (Cons m ms)
    then show ?case by (simp add: attempted_append)
  qed
  then show ?case by simp
qed

lemma visits_unreadable: "\<not> readable n \<Longrightarrow> None \<in> set (visits n)"
proof (induction n)
  case Unreadable
  then show ?case by simp
next
  case (File f)
  then show ?case by (cases f) simp_all
next
  case DirUnreadable
  then show ?case by simp
next
  case (Dir ns)
  then show ?case by (auto simp: list_all_iff)
qed

lemma attempted_readable_paths:
  "list_all (\<lambda>p. readable (fs p)) ps \<Longrightarrow>
   None \<notin> set (concat (map (\<lambda>p. visits (fs p)) ps)) \<and>
   attempted rd (concat (map (\<lambda>p. visits (fs p)) ps)) =
     concat (map (\<lambda>p. contents rd (fs p)) ps)"
proof (induction ps)
  case Nil
  show ?case by (simp add: attempted_def)
next
  case (Cons p ps)
  then show ?case
    using visits_readable [of "fs p" rd] by (simp add: attempted_append)
qed

lemma attempted_failing_path:
  assumes "list_all (\<lambda>p. readable (fs p)) ps" and "\<not> readable (fs p)"
  shows "attempted rd (concat (map (\<lambda>p. visits (fs p)) (ps @ p # rest))) =
     concat (map (\<lambda>p. contents rd (fs p)) ps) @ attempted rd (visits (fs p))"
proof -
  have "concat (map (\<lambda>p. visits (fs p)) (ps @ p # rest)) =
      concat (map (\<lambda>p. visits (fs p)) ps) @ (visits (fs p) @ concat (map (\<lambda>p. visits (fs p)) rest))"
    by simp
  then show ?thesis
    using attempted_readable_paths [OF assms(1), of rd] visits_unreadable [OF assms(2)]
    by (simp only: attempted_append) simp
qed

text \<open>
  Claim C6, as stated, fails. With the paths \<open>a\<close> and \<open>b\<close>, where the file at
  \<open>a\<close> cannot be opened and the file at \<open>b\<close> holds one packet, nothing is sent
  to a consumer that receives until the channel is closed: the error at \<open>a\<close>
  suppresses the packet of \<open>b\<close>. And with a consumer that receives nothing, the
  goroutine stays in its first send and the channel is never closed.
\<close>

theorem Walk_error_counterexample:
  "sort [''a'', ''b''] = [''a'', ''b'']
   \<and> contents (\<lambda>c. c) (File (Some [7 :: nat])) = [7]
   \<and> sent (Walk (\<lambda>p. if p = ''a'' then File None else File (Some [7 :: nat]))
               (\<lambda>d c. c) [''a'', ''b''] (Some ()) None) = []
   \<and> \<not> closed (Walk (\<lambda>p. File (Some [7 :: nat])) (\<lambda>d c. c) [''b''] (Some ()) (Some 0))"
  by (simp add: Walk_def walk_def filepath_Walk_def walkFn_def send_def)

text \<open>
  Claim C6, amended. \<open>Walk\<close> always hands its channel to the caller, and nothing
  in it can panic. A nil decoder sends nothing and the channel is closed. Otherwise
  the packets that the goroutine tries to send are, in the walking order of the sorted
  paths, those that the reader delivers for every file met before the first I/O error
  (an entry or directory that cannot be read, a file that cannot be opened): a file whose
  reader stops early, at a frame it cannot decode, ends only its own contribution, and
  an I/O error ends the whole walk, also for the paths that follow. The consumer receives
  these packets in order, all of them when it receives until the channel is closed, and
  the channel is closed exactly when the consumer receives them all. So when nothing
  fails under any path, every file's packets are sent, path after path; and when \<open>p\<close>
  is the first path under which something fails, the packets sent are those of the
  paths before \<open>p\<close>, then those of the files met under \<open>p\<close> before the failure,
  and nothing else.
\<close>

theorem Walk_delivers:
  fixes fs :: "string \<Rightarrow> 'c node" and packets :: "'d \<Rightarrow> 'c \<Rightarrow> 'p list"
    and paths :: "string list" and dec :: 'd and recv :: "nat option"
  defines "S \<equiv> concat (map (packets dec) (map the (takeWhile (\<lambda>v. v \<noteq> None)
                   (concat (map (\<lambda>p. visits (fs p)) (sort paths))))))"
  shows "sent (Walk fs packets paths (Some dec) recv) = (case recv of None \<Rightarrow> S | Some n \<Rightarrow> take n S)
   \<and> (closed (Walk fs packets paths (Some dec) recv) \<longleftrightarrow>
        (case recv of None \<Rightarrow> True | Some n \<Rightarrow> length S \<le> n))
   \<and> sent (Walk fs packets paths None recv) = []
   \<and> closed (Walk fs packets paths None recv)
   \<and> (list_all (\<lambda>p. readable (fs p)) paths \<longrightarrow>
        sent (Walk fs packets paths (Some dec) None) =
          concat (map (\<lambda>p. contents (packets dec) (fs p)) (sort paths)))
   \<and> (sort paths = ps @ p # rest \<and> list_all (\<lambda>p. readable (fs p)) ps \<and> \<not> readable (fs p)
        \<longrightarrow>
        sent (Walk fs packets paths (Some dec) None) =
          concat (map (\<lambda>p. contents (packets dec) (fs p)) ps)
          @ concat (map (packets dec) (map the (takeWhile (\<lambda>v. v \<noteq> None) (visits (fs p))))))"
proof -
  have S: "S = attempted (packets dec) (concat (map (\<lambda>p. visits (fs p)) (sort paths)))"
    by (simp only: S_def attempted_def)
  have a: "sent (Walk fs packets paths (Some dec) r) = (case r of None \<Rightarrow> S | Some n \<Rightarrow> take n S)"
    for r
    by (cases r) (simp_all add: Walk_outcome S received_def)
  have b: "closed (Walk fs packets paths (Some dec) recv) \<longleftrightarrow>
        (case recv of None \<Rightarrow> True | Some n \<Rightarrow> length S \<le> n)"
    by (cases recv) (simp_all add: Walk_outcome S receives_all_def)
  have c: "sent (Walk fs packets paths None recv) = []" "closed (Walk fs packets paths None recv)"
    by (simp_all add: Walk_def)
  have d: "sent (Walk fs packets paths (Some dec) None) =
          concat (map (\<lambda>p. contents (packets dec) (fs p)) (sort paths))"
    if "list_all (\<lambda>p. readable (fs p)) paths"
  proof -
    have "list_all (\<lambda>p. readable (fs p)) (sort paths)"
      using that by (simp add: list_all_iff)
    then show ?thesis
      using attempted_readable_paths [of fs "sort paths" "packets dec"]
      by (simp add: a S)
  qed
  have e: "sent (Walk fs packets paths (Some dec) None) =
          concat (map (\<lambda>p. contents (packets dec) (fs p)) ps)
          @ concat (map (packets dec) (map the (takeWhile (\<lambda>v. v \<noteq> None) (visits (fs p)))))"
    if "sort paths = ps @ p # rest" "list_all (\<lambda>p. readable (fs p)) ps" "\<not> readable (fs p)"
  proof -
    have "S = concat (map (\<lambda>p. contents (packets dec) (fs p)) ps)
        @ attempted (packets dec) (visits (fs p))"
      unfolding S that(1) using that(2,3) by (rule attempted_failing_path)
    then show ?thesis
      unfolding attempted_def by (simp add: a)
  qed
  show ?thesis
    using a [of recv] b c d e by blast
qed

theorem Walk_delivers_witness:
  "list_all (\<lambda>p. readable ((\<lambda>p. if p = ''a'' then Dir [File (Some [1, 2]), File (Some [3])] else if p = ''b'' then File (Some [4 :: nat]) else Unreadable) p)) [''b'', ''a'']
   \<and> sent (Walk (\<lambda>p. if p = ''a'' then Dir [File (Some [1, 2]), File (Some [3])] else if p = ''b'' then File (Some [4 :: nat]) else Unreadable) (\<lambda>d c. c) [''b'', ''a''] (Some ()) None) = [1, 2, 3, 4]
   \<and> closed (Walk (\<lambda>p. if p = ''a'' then Dir [File (Some [1, 2]), File (Some [3])] else if p = ''b'' then File (Some [4 :: nat]) else Unreadable) (\<lambda>d c. c) [''b'', ''a''] (Some ()) None)
   \<and> sent (Walk (\<lambda>p. if p = ''a'' then Dir [File (Some [1, 2]), File (Some [3])] else if p = ''b'' then File (Some [4 :: nat]) else Unreadable) (\<lambda>d c. c) [''b'', ''a''] (Some ()) (Some 2)) = [1, 2]
   \<and> \<not> closed (Walk (\<lambda>p. if p = ''a'' then Dir [File (Some [1, 2]), File (Some [3])] else if p = ''b'' then File (Some [4 :: nat]) else Unreadable) (\<lambda>d c. c) [''b'', ''a''] (Some ()) (Some 2))
   \<and> sort [''c'', ''a'', ''b''] = [''a''] @ ''b'' # [''c'']
   \<and> list_all (\<lambda>p. readable ((\<lambda>p. if p = ''a'' then File (Some [1]) else if p = ''b'' then Dir [File (Some [2]), File None, File (Some [3])] else File (Some [9 :: nat])) p)) [''a'']
   \<and> \<not> readable ((\<lambda>p. if p = ''a'' then File (Some [1]) else if p = ''b'' then Dir [File (Some [2]), File None, File (Some [3])] else File (Some [9 :: nat])) ''b'')
   \<and> sent (Walk (\<lambda>p. if p = ''a'' then File (Some [1]) else if p = ''b'' then Dir [File (Some [2]), File None, File (Some [3])] else File (Some [9 :: nat])) (\<lambda>d c. c) [''c'', ''a'', ''b''] (Some ()) None) = [1, 2]
   \<and> closed (Walk (\<lambda>p. if p = ''a'' then File (Some [1]) else if p = ''b'' then Dir [File (Some [2]), File None, File (Some [3])] else File (Some [9 :: nat])) (\<lambda>d c. c) [''c'', ''a'', ''b''] (Some ()) None)"
proof -
  let ?fs1 = "(\<lambda>p. if p = ''a'' then Dir [File (Some [1, 2]), File (Some [3])] else if p = ''b'' then File (Some [4 :: nat]) else Unreadable)"
  let ?fs2 = "(\<lambda>p. if p = ''a'' then File (Some [1]) else if p = ''b'' then Dir [File (Some [2]), File None, File (Some [3])] else File (Some [9 :: nat]))"
  let ?pk = "\<lambda>(d :: unit) (c :: nat list). c"
  have s1: "sort [''b'', ''a''] = [''a'', ''b'']" by simp
  have h1: "list_all (\<lambda>p. readable (?fs1 p)) [''b'', ''a'']" by simp
  have h2: "sort [''c'', ''a'', ''b''] = [''a''] @ ''b'' # [''c'']" by simp
  have h3: "list_all (\<lambda>p. readable (?fs2 p)) [''a'']" by simp
  have h4: "\<not> readable (?fs2 ''b'')" by simp
  note t1 = Walk_delivers [of ?fs1 ?pk "[''b'', ''a'']" "()" None]
  note t2 = Walk_delivers [of ?fs1 ?pk "[''b'', ''a'']" "()" "Some 2"]
  note t3 = Walk_delivers [of ?fs2 ?pk "[''c'', ''a'', ''b'']" "()" None "[''a'']" "''b''" "[''c'']"]
  have "sent (Walk ?fs1 ?pk [''b'', ''a''] (Some ()) None) =
      concat (map (\<lambda>p. contents (?pk ()) (?fs1 p)) (sort [''b'', ''a'']))"
    using t1 h1 by blast
  then have w1: "sent (Walk ?fs1 ?pk [''b'', ''a''] (Some ()) None) = [1, 2, 3, 4]"
    unfolding s1 by simp
  have w1c: "closed (Walk ?fs1 ?pk [''b'', ''a''] (Some ()) None)"
    using t1 by simp
  have v: "concat (map (?pk ()) (map the (takeWhile (\<lambda>v. v \<noteq> None)
      (concat (map (\<lambda>p. visits (?fs1 p)) (sort [''b'', ''a'']))))))  = [1, 2, 3, 4]"
    unfolding s1 by simp
  have w2: "sent (Walk ?fs1 ?pk [''b'', ''a''] (Some ()) (Some 2)) = [1, 2]"
    "\<not> closed (Walk ?fs1 ?pk [''b'', ''a''] (Some ()) (Some 2))"
    using t2 unfolding v by simp_all
  have "sent (Walk ?fs2 ?pk [''c'', ''a'', ''b''] (Some ()) None) =
      concat (map (\<lambda>p. contents (?pk ()) (?fs2 p)) [''a''])
      @ concat (map (?pk ()) (map the (takeWhile (\<lambda>v. v \<noteq> None) (visits (?fs2 ''b'')))))"
    using t3 h2 h3 h4 by blast
  then have w3: "sent (Walk ?fs2 ?pk [''c'', ''a'', ''b''] (Some ()) None) = [1, 2]"
    by simp
  have w3c: "closed (Walk ?fs2 ?pk [''c'', ''a'', ''b''] (Some ()) None)"
    using t3 by simp
  show ?thesis
    using h1 h2 h3 h4 w1 w1c w2 w3 w3c by blast
qed

section \<open>Properties of the time range\<close>

lemma time_Sub_day: "time_Sub now (now + Hour * (- 24)) = 24 * Hour"
  by (simp add: time_Sub_def Hour_def Minute_def maxDuration_def minDuration_def)

lemma timeRange_unfold:
  fixes rfc3339 :: "string \<Rightarrow> time option" and now :: time
    and q :: "string \<Rightarrow> string list" and delta :: duration
  defines "s \<equiv> Get q ''dtstart''" and "e \<equiv> Get q ''dtend''"
  defines "fd \<equiv> fst (time_Parse rfc3339 s)" and "td \<equiv> fst (time_Parse rfc3339 e)"
  defines "lo \<equiv> (if time_IsZero fd \<and> time_IsZero td then time_Add now (Hour * (- 24)) else fd)"
    and "hi \<equiv> (if time_IsZero fd \<and> time_IsZero td then now else td)"
  shows "timeRange rfc3339 now q delta =
      (if s \<noteq> [] \<and> rfc3339 s = None
        then Inl (InvalidRequestError ''bad format dtstart query parameter'')
        else if e \<noteq> [] \<and> rfc3339 e = None
        then Inl (InvalidRequestError ''bad format dtend query parameter'')
        else if time_IsZero lo \<or> time_IsZero hi
        then Inl (InvalidRequestError ''both dtstart and dtend should be provided'')
        else if time_Before hi lo \<or> (delta > 0 \<and> time_Sub hi lo > delta)
        then Inl (InvalidRequestError ''invalid interval'')
        else Inr (time_Truncate lo Five, time_Truncate (time_Add hi Five) Five))"
proof -
  have p: "time_Parse rfc3339 s = (fd, rfc3339 s = None)" "time_Parse rfc3339 e = (td, rfc3339 e = None)"
    by (simp_all add: fd_def td_def time_Parse_def split: option.splits)
  show ?thesis
    unfolding timeRange_def s_def [symmetric] e_def [symmetric] p lo_def hi_def
    by simp
qed

text \<open>
  Claim C7 against the code. With \<open>dtstart=0001-01-01T00:00:00Z\<close> and
  \<open>dtend=2019-03-14T10:15:00Z\<close>, both parameters are supplied and valid RFC3339,
  \<open>dtend\<close> is not before \<open>dtstart\<close> and the cap is 0, so none of the claim's
  conditions holds; \<open>timeRange\<close> still returns the \<open>InvalidRequestError\<close> whose
  message is ``both dtstart and dtend should be provided''. The function parses a
  parameter exactly when it is supplied, then takes a parsed time that is the zero time
  for a bound that was not provided.
\<close>

theorem timeRange_zero_time_rejected:
  "Get (\<lambda>k. if k = ''dtstart'' then [''0001-01-01T00:00:00Z'']
             else if k = ''dtend'' then [''2019-03-14T10:15:00Z''] else []) ''dtstart'' \<noteq> []
   \<and> Get (\<lambda>k. if k = ''dtstart'' then [''0001-01-01T00:00:00Z'']
             else if k = ''dtend'' then [''2019-03-14T10:15:00Z''] else []) ''dtend'' \<noteq> []
   \<and> \<not> time_Before 63688155300000000000 0
   \<and> timeRange (\<lambda>s. if s = ''0001-01-01T00:00:00Z'' then Some 0
                      else if s = ''2019-03-14T10:15:00Z'' then Some 63688155300000000000
                      else None)
         63688200000000000000
         (\<lambda>k. if k = ''dtstart'' then [''0001-01-01T00:00:00Z'']
              else if k = ''dtend'' then [''2019-03-14T10:15:00Z''] else [])
         0
       = Inl (InvalidRequestError ''both dtstart and dtend should be provided'')"
  by (simp add: timeRange_def Get_def time_Parse_def time_IsZero_def time_Before_def)

text \<open>
  With the same two zero-time parameters on both sides the request is not rejected,
  and what comes back is the default window of the last 24 hours, not the supplied one.
\<close>

lemma timeRange_zero_bounds_default:
  "timeRange (\<lambda>s. if s = ''0001-01-01T00:00:00Z'' then Some 0 else None)
         63688200000000000000
         (\<lambda>k. if k = ''dtstart'' then [''0001-01-01T00:00:00Z'']
              else if k = ''dtend'' then [''0001-01-01T00:00:00Z''] else [])
         0
       = Inr (time_Truncate (time_Add 63688200000000000000 (Hour * (- 24))) Five,
              time_Truncate (time_Add 63688200000000000000 Five) Five)"
  by (simp add: timeRange_def Get_def time_Parse_def time_IsZero_def time_Before_def
      time_Add_def Hour_def Minute_def)

text \<open>
  What the function does on every request, the zero-time test included. A bound counts
  as provided when its parameter is supplied and denotes a time other than the zero
  time; an empty parameter never parses, and the clock reads more than a day after the
  zero time. Then \<open>timeRange\<close> returns an \<open>InvalidRequestError\<close> exactly when a
  supplied parameter is not valid RFC3339, or exactly one bound counts as provided, or
  both do and \<open>dtend\<close> is before \<open>dtstart\<close> or, for a positive cap, the span exceeds
  the cap, or none does and the cap is positive and below 24 hours. When none does and
  the cap is zero or at least 24 hours, it succeeds with the window of the last 24 hours
  ending now, snapped to 5 minutes. With a cap of zero no request is rejected for its
  span.
\<close>

lemma timeRange_rejects_iff:
  fixes rfc3339 :: "string \<Rightarrow> time option" and now :: time
    and q :: "string \<Rightarrow> string list" and delta :: duration
  defines "s \<equiv> Get q ''dtstart''" and "e \<equiv> Get q ''dtend''"
  defines "fd \<equiv> fst (time_Parse rfc3339 s)" and "td \<equiv> fst (time_Parse rfc3339 e)"
  assumes "rfc3339 [] = None" and "24 * Hour < now"
  shows "((\<exists>msg. timeRange rfc3339 now q delta = Inl (InvalidRequestError msg)) \<longleftrightarrow>
           (s \<noteq> [] \<and> rfc3339 s = None) \<or> (e \<noteq> [] \<and> rfc3339 e = None)
           \<or> (time_IsZero fd \<and> \<not> time_IsZero td) \<or> (\<not> time_IsZero fd \<and> time_IsZero td)
           \<or> (\<not> time_IsZero fd \<and> \<not> time_IsZero td \<and>
               (time_Before td fd \<or> (0 < delta \<and> delta < time_Sub td fd)))
           \<or> (time_IsZero fd \<and> time_IsZero td \<and> 0 < delta \<and> delta < 24 * Hour))
     \<and> ((s = [] \<or> rfc3339 s \<noteq> None) \<and> (e = [] \<or> rfc3339 e \<noteq> None)
          \<and> time_IsZero fd \<and> time_IsZero td \<and> (delta \<le> 0 \<or> 24 * Hour \<le> delta) \<longrightarrow>
           timeRange rfc3339 now q delta =
             Inr (time_Truncate (time_Add now (Hour * (- 24))) Five,
                  time_Truncate (time_Add now Five) Five))
     \<and> (s = [] \<longrightarrow> time_IsZero fd) \<and> (e = [] \<longrightarrow> time_IsZero td)"
proof -
  have z: "s = [] \<longrightarrow> time_IsZero fd" "e = [] \<longrightarrow> time_IsZero td"
    using assms(5) by (simp_all add: fd_def td_def time_Parse_def time_IsZero_def)
  have n: "\<not> time_IsZero now" "\<not> time_IsZero (time_Add now (Hour * (- 24)))"
    "\<not> time_Before now (time_Add now (Hour * (- 24)))"
    using assms(6) by (simp_all add: time_IsZero_def time_Add_def time_Before_def Hour_def Minute_def)
  have d: "time_Sub now (time_Add now (Hour * (- 24))) = 24 * Hour"
    unfolding time_Add_def by (rule time_Sub_day)
  have r: "timeRange rfc3339 now q delta =
      (if s \<noteq> [] \<and> rfc3339 s = None
        then Inl (InvalidRequestError ''bad format dtstart query parameter'')
        else if e \<noteq> [] \<and> rfc3339 e = None
        then Inl (InvalidRequestError ''bad format dtend query parameter'')
        else if time_IsZero fd \<and> time_IsZero td
        then (if delta > 0 \<and> 24 * Hour > delta
              then Inl (InvalidRequestError ''invalid interval'')
              else Inr (time_Truncate (time_Add now (Hour * (- 24))) Five,
                        time_Truncate (time_Add now Five) Five))
        else if time_IsZero fd \<or> time_IsZero td
        then Inl (InvalidRequestError ''both dtstart and dtend should be provided'')
        else if time_Before td fd \<or> (delta > 0 \<and> time_Sub td fd > delta)
        then Inl (InvalidRequestError ''invalid interval'')
        else Inr (time_Truncate fd Five, time_Truncate (time_Add td Five) Five))"
    unfolding timeRange_unfold s_def [symmetric] e_def [symmetric] fd_def [symmetric]
      td_def [symmetric]
    using n d by simp
  have zz: "time_IsZero fd \<and> time_IsZero td \<Longrightarrow> \<not> time_Before td fd"
    by (simp add: time_IsZero_def time_Before_def)
  consider (bad1) "s \<noteq> [] \<and> rfc3339 s = None"
    | (bad2) "\<not> (s \<noteq> [] \<and> rfc3339 s = None)" "e \<noteq> [] \<and> rfc3339 e = None"
    | (none) "\<not> (s \<noteq> [] \<and> rfc3339 s = None)" "\<not> (e \<noteq> [] \<and> rfc3339 e = None)"
        "time_IsZero fd \<and> time_IsZero td"
    | (one) "\<not> (s \<noteq> [] \<and> rfc3339 s = None)" "\<not> (e \<noteq> [] \<and> rfc3339 e = None)"
        "\<not> (time_IsZero fd \<and> time_IsZero td)" "time_IsZero fd \<or> time_IsZero td"
    | (both) "\<not> (s \<noteq> [] \<and> rfc3339 s = None)" "\<not> (e \<noteq> [] \<and> rfc3339 e = None)"
        "\<not> time_IsZero fd" "\<not> time_IsZero td"
    by blast
  then show ?thesis
  proof cases
    case bad1
    then show ?thesis using z by (simp add: r)
  next
    case bad2
    then show ?thesis using z by (simp add: r)
  next
    case none
    then show ?thesis using z zz by (auto simp: r)
  next
    case one
    then show ?thesis using z by (simp add: r) blast
  next
    case both
    then show ?thesis using z by (simp add: r)
  qed
qed

lemma timeRange_rejects_iff_witness:
  "(\<lambda>s. if s = ''2019-03-14T10:02:30Z'' then Some (63688154550000000000 :: int) else if s = ''2019-03-14T10:15:00Z'' then Some 63688155300000000000 else None) [] = None
   \<and> 24 * Hour < 63688200123000000000
   \<and> \<not> time_IsZero (fst (time_Parse (\<lambda>s. if s = ''2019-03-14T10:02:30Z'' then Some (63688154550000000000 :: int) else if s = ''2019-03-14T10:15:00Z'' then Some 63688155300000000000 else None) (Get (\<lambda>k. if k = ''dtstart'' then [''2019-03-14T10:02:30Z''] else []) ''dtstart'')))
   \<and> time_IsZero (fst (time_Parse (\<lambda>s. if s = ''2019-03-14T10:02:30Z'' then Some (63688154550000000000 :: int) else if s = ''2019-03-14T10:15:00Z'' then Some 63688155300000000000 else None) (Get (\<lambda>k. if k = ''dtstart'' then [''2019-03-14T10:02:30Z''] else []) ''dtend'')))
   \<and> (\<exists>msg. timeRange (\<lambda>s. if s = ''2019-03-14T10:02:30Z'' then Some (63688154550000000000 :: int) else if s = ''2019-03-14T10:15:00Z'' then Some 63688155300000000000 else None) 63688200123000000000 (\<lambda>k. if k = ''dtstart'' then [''2019-03-14T10:02:30Z''] else []) MaxInterval = Inl (InvalidRequestError msg))
   \<and> Get (\<lambda>k. []) ''dtstart'' = [] \<and> Get (\<lambda>k. []) ''dtend'' = []
   \<and> 24 * Hour \<le> MaxInterval
   \<and> timeRange (\<lambda>s. if s = ''2019-03-14T10:02:30Z'' then Some (63688154550000000000 :: int) else if s = ''2019-03-14T10:15:00Z'' then Some 63688155300000000000 else None) 63688200123000000000 (\<lambda>k. []) MaxInterval =
       Inr (63688113600000000000, 63688200300000000000)"
proof -
  let ?P = "(\<lambda>s. if s = ''2019-03-14T10:02:30Z'' then Some (63688154550000000000 :: int) else if s = ''2019-03-14T10:15:00Z'' then Some 63688155300000000000 else None)"
  let ?Q1 = "(\<lambda>k. if k = ''dtstart'' then [''2019-03-14T10:02:30Z''] else [])"
  let ?Q0 = "\<lambda>k :: string. [] :: string list"
  have h: "?P [] = None" "24 * Hour < 63688200123000000000" "24 * Hour \<le> MaxInterval"
    by (simp_all add: Hour_def Minute_def MaxInterval_def)
  have g: "Get ?Q0 ''dtstart'' = []" "Get ?Q0 ''dtend'' = []"
    by (simp_all add: Get_def)
  have p: "\<not> time_IsZero (fst (time_Parse ?P (Get ?Q1 ''dtstart'')))"
    "time_IsZero (fst (time_Parse ?P (Get ?Q1 ''dtend'')))"
    by (simp_all add: time_IsZero_def time_Parse_def Get_def)
  have w1: "\<exists>msg. timeRange ?P 63688200123000000000 ?Q1 MaxInterval = Inl (InvalidRequestError msg)"
    using timeRange_rejects_iff [of ?P 63688200123000000000 ?Q1 MaxInterval] h p by blast
  have z: "time_IsZero (fst (time_Parse ?P (Get ?Q0 ''dtstart'')))"
    "time_IsZero (fst (time_Parse ?P (Get ?Q0 ''dtend'')))"
    by (simp_all add: time_IsZero_def time_Parse_def Get_def)
  have "timeRange ?P 63688200123000000000 ?Q0 MaxInterval =
      Inr (time_Truncate (time_Add 63688200123000000000 (Hour * (- 24))) Five,
           time_Truncate (time_Add 63688200123000000000 Five) Five)"
    using timeRange_rejects_iff [of ?P 63688200123000000000 ?Q0 MaxInterval] h g z by blast
  then have w2: "timeRange ?P 63688200123000000000 ?Q0 MaxInterval =
       Inr (63688113600000000000, 63688200300000000000)"
    by (simp add: time_Truncate_def time_Add_def Hour_def Minute_def Five_def)
  show ?thesis
    using h g p w1 w2 by blast
qed







end
